theory Spec2Isabelle
  imports Main "HOL-Library.AList"
begin

section \<open>Data model of othello.py\<close>

text \<open>
  Tile colours are the strings \<^verbatim>\<open>"black"\<close> and \<^verbatim>\<open>"white"\<close> (GamePiece asserts that
  no other string is used), the directions are the eight strings
  \<^verbatim>\<open>n, ne, e, se, s, sw, w, nw\<close> (every method asserts membership).
\<close>

datatype color = Black | White

datatype direction =
  North | Northeast | East | Southeast | South | Southwest | West | Northwest

text \<open>The exceptions the modelled code can raise.\<close>

datatype error =
  AssertionError | KeyError | IndexError | AttributeError | ValueError | RecursionError

text \<open>Class GamePiece: location, colour and centre coordinates.\<close>

record GamePiece =
  p_location :: int
  p_color :: color
  p_x :: int
  p_y :: int

text \<open>Class Square: location, lower left corner and side length.\<close>

record Square =
  sq_location :: int
  sq_x :: int
  sq_y :: int
  sq_size :: int

text \<open>
  Class GameBoard. The dictionary \<open>valid_moves\<close> is an association list in insertion
  order (the iteration order of a Python dictionary). The field \<open>ended\<close> records the
  effect of \<open>end_game\<close> (the winner is announced and the score is saved); the drawing
  calls change nothing else of the object and are left out.
\<close>

record GameBoard =
  board_n :: int
  turn :: color
  pieces :: "GamePiece option list"
  black :: int
  white :: int
  squares :: "Square list"
  valid_moves :: "(int \<times> GamePiece list) list"
  ended :: bool

text \<open>The module constant SQUARE (pixels).\<close>

definition SQUARE :: int where
  "SQUARE = 50"

section \<open>Python primitives\<close>

text \<open>\<open>xs[i]\<close>: a negative index counts from the end, an index out of range raises.\<close>

definition py_index :: "'a list \<Rightarrow> int \<Rightarrow> error + 'a" where
  "py_index xs i =
     (if 0 \<le> i \<and> i < int (length xs) then Inr (xs ! nat i)
      else if i < 0 \<and> - int (length xs) \<le> i then Inr (xs ! nat (int (length xs) + i))
      else Inl IndexError)"

text \<open>\<open>xs[i] = v\<close>, with the same index rules.\<close>

definition py_store :: "'a list \<Rightarrow> int \<Rightarrow> 'a \<Rightarrow> error + 'a list" where
  "py_store xs i v =
     (if 0 \<le> i \<and> i < int (length xs) then Inr (xs[nat i := v])
      else if i < 0 \<and> - int (length xs) \<le> i then Inr (xs[nat (int (length xs) + i) := v])
      else Inl IndexError)"

text \<open>\<open>range(start, stop, step)\<close> for a step other than zero (zero raises ValueError,
  which the caller models).\<close>

function py_range :: "int \<Rightarrow> int \<Rightarrow> int \<Rightarrow> int list" where
  "py_range start stop step =
     (if (0 < step \<and> start < stop) \<or> (step < 0 \<and> stop < start)
      then start # py_range (start + step) stop step
      else [])"
  by pat_completeness auto
termination
  by (relation "measure (\<lambda>(start, stop, step).
        if 0 < step then nat (stop - start) else nat (start - stop))") auto

declare py_range.simps [simp del]

text \<open>Sequencing of a computation that may raise.\<close>

definition and_then :: "'x + 'r \<Rightarrow> ('r \<Rightarrow> 'x + 's) \<Rightarrow> 'x + 's" where
  "and_then r k = (case r of Inr val \<Rightarrow> k val | Inl err \<Rightarrow> Inl err)"

section \<open>Board geometry\<close>

text \<open>\<open>GameBoard.set_increment\<close>: the index delta of one step in a direction.\<close>

fun set_increment :: "GameBoard \<Rightarrow> direction \<Rightarrow> int" where
  "set_increment b North = board_n b"
| "set_increment b South = - board_n b"
| "set_increment b East = 1"
| "set_increment b West = - 1"
| "set_increment b Northeast = board_n b + 1"
| "set_increment b Northwest = board_n b - 1"
| "set_increment b Southeast = - (board_n b - 1)"
| "set_increment b Southwest = - (board_n b + 1)"

text \<open>
  \<open>GameBoard.set_max_min\<close>. The source keeps the result in one of two variables
  \<open>mx\<close> and \<open>mn\<close>, of which every branch sets exactly one, and returns the one that
  is set; the model returns it directly.
\<close>

definition set_max_min :: "GameBoard \<Rightarrow> int \<Rightarrow> direction \<Rightarrow> error + int" where
  "set_max_min b location d =
     (if \<not> (0 \<le> location \<and> location < (board_n b)\<^sup>2) then Inl AssertionError
      else
        let row_num = location div board_n b;
            row_start = row_num * board_n b;
            max_steps = board_n b - 1;
            row_end = row_start + max_steps;
            board_max = (board_n b)\<^sup>2 - 1;
            board_min = 0
        in case d of
             North \<Rightarrow> Inr board_max
           | South \<Rightarrow> Inr board_min
           | East \<Rightarrow> Inr row_end
           | West \<Rightarrow> Inr row_start
           | Northeast \<Rightarrow>
               (let steps = max_steps - (location mod board_n b);
                    mx = row_end + (steps * board_n b)
                in Inr (if mx > board_max then board_max else mx))
           | Southeast \<Rightarrow>
               (let steps = max_steps - (location mod board_n b);
                    mn = row_end - (steps * board_n b)
                in Inr (if mn < board_min then board_min else mn))
           | Northwest \<Rightarrow>
               (let steps = location - row_start;
                    mx = row_start + (steps * board_n b)
                in Inr (if mx > board_max then board_max else mx))
           | Southwest \<Rightarrow>
               (let steps = location - row_start;
                    mn = row_start - (steps * board_n b)
                in Inr (if mn < board_min then board_min else mn)))"

section \<open>Move engine\<close>

text \<open>
  The loop of \<open>can_capture_in_direction\<close> over the locations of the range. It ends in
  one of two ways: the early \<^verbatim>\<open>return []\<close> at an empty square (\<open>Inr None\<close>), or
  by \<^verbatim>\<open>break\<close> or exhaustion with the tiles collected so far (\<open>Inr (Some captured)\<close>).
  The statement \<^verbatim>\<open>loc += inc\<close> at the end of the loop body has no effect, the
  iterator assigns \<open>loc\<close> afresh.
\<close>

fun capture_loop ::
  "GamePiece option list \<Rightarrow> color \<Rightarrow> int list \<Rightarrow> GamePiece list \<Rightarrow> error + GamePiece list option"
where
  "capture_loop ps t [] captured = Inr (Some captured)"
| "capture_loop ps t (loc # locs) captured =
     (case py_index ps loc of
        Inl e \<Rightarrow> Inl e
      | Inr None \<Rightarrow> Inr None
      | Inr (Some piece) \<Rightarrow>
          if p_color piece \<noteq> t then capture_loop ps t locs (captured @ [piece])
          else Inr (Some (captured @ [piece])))"

text \<open>\<open>GameBoard.can_capture_in_direction\<close>.\<close>

definition can_capture_in_direction ::
  "GameBoard \<Rightarrow> int \<Rightarrow> direction \<Rightarrow> error + GamePiece list"
where
  "can_capture_in_direction b location d =
     (if \<not> (0 \<le> location \<and> location < (board_n b)\<^sup>2) then Inl AssertionError
      else
        let inc = set_increment b d in
        and_then (set_max_min b location d) (\<lambda>end0.
        let end = (if inc \<le> 0 then end0 - 1 else end0 + 1);
            start = location + inc
        in if inc = 0 then Inl ValueError
           else
             and_then (capture_loop (pieces b) (turn b) (py_range start end inc) []) (\<lambda>r.
               case r of
                 None \<Rightarrow> Inr []
               | Some captured \<Rightarrow>
                   if length captured > 0 \<and> p_color (last captured) = turn b
                   then Inr (butlast captured)
                   else Inr [])))"

text \<open>\<open>Square.is_empty\<close>: the square holds no tile in the given list of pieces.\<close>

definition is_empty :: "Square \<Rightarrow> GamePiece option list \<Rightarrow> error + bool" where
  "is_empty sq state = and_then (py_index state (sq_location sq)) (\<lambda>tile. Inr (tile = None))"

text \<open>The loop of \<open>all_can_capture\<close> over the eight directions.\<close>

fun capture_dirs ::
  "GameBoard \<Rightarrow> int \<Rightarrow> direction list \<Rightarrow> GamePiece list \<Rightarrow> error + GamePiece list"
where
  "capture_dirs b location [] captured = Inr captured"
| "capture_dirs b location (d # ds) captured =
     and_then (can_capture_in_direction b location d) (\<lambda>captured_in_direction.
       capture_dirs b location ds (captured @ captured_in_direction))"

definition all_directions :: "direction list" where
  "all_directions =
     [North, Northeast, East, Southeast, South, Southwest, West, Northwest]"

text \<open>\<open>GameBoard.all_can_capture\<close>.\<close>

definition all_can_capture :: "GameBoard \<Rightarrow> int \<Rightarrow> error + GamePiece list" where
  "all_can_capture b location =
     (if \<not> (0 \<le> location \<and> location < (board_n b)\<^sup>2) then Inl AssertionError
      else
        and_then (py_index (squares b) location) (\<lambda>square.
        and_then (is_empty square (pieces b)) (\<lambda>empty.
          if \<not> empty then Inr []
          else capture_dirs b location all_directions [])))"

text \<open>
  \<open>GameBoard.find_valid_moves\<close>: the loop over the squares, with the dictionary built
  so far. Assigning to a key that is present replaces its value in place, a new key goes
  to the end.
\<close>

fun valid_moves_loop ::
  "GameBoard \<Rightarrow> Square list \<Rightarrow> (int \<times> GamePiece list) list
     \<Rightarrow> error + (int \<times> GamePiece list) list"
where
  "valid_moves_loop b [] moves = Inr moves"
| "valid_moves_loop b (square # rest) moves =
     and_then (all_can_capture b (sq_location square)) (\<lambda>can_capture.
       valid_moves_loop b rest
         (if can_capture \<noteq> [] then AList.update (sq_location square) can_capture moves
          else moves))"

definition find_valid_moves :: "GameBoard \<Rightarrow> error + (int \<times> GamePiece list) list" where
  "find_valid_moves b = valid_moves_loop b (squares b) []"

section \<open>Squares and pieces\<close>

text \<open>\<open>Square.calc_center\<close>.\<close>

definition calc_center :: "Square \<Rightarrow> int \<times> int" where
  "calc_center sq =
     (let half = sq_size sq div 2
      in (sq_x sq + sq_size sq - half, sq_y sq + sq_size sq - half))"

text \<open>\<open>Square.was_clicked\<close>.\<close>

definition was_clicked :: "Square \<Rightarrow> int \<Rightarrow> int \<Rightarrow> bool" where
  "was_clicked sq x y =
     ((sq_x sq < x \<and> x < sq_x sq + sq_size sq) \<and> (sq_y sq < y \<and> y < sq_y sq + sq_size sq))"

text \<open>\<open>GamePiece.change_color\<close>; \<open>GamePiece.flip\<close> calls it and redraws the tile.\<close>

definition change_color :: "GamePiece \<Rightarrow> GamePiece" where
  "change_color p =
     (if p_color p = White then p\<lparr>p_color := Black\<rparr>
      else if p_color p = Black then p\<lparr>p_color := White\<rparr>
      else p)"

section \<open>Game state machine\<close>

text \<open>
  A method that changes the board returns the new board, or the exception together with
  the board as it stands when the exception is raised.
\<close>

type_synonym 'a result = "(error \<times> GameBoard) + 'a"

definition raised_in :: "GameBoard \<Rightarrow> error + 'a \<Rightarrow> 'a result" where
  "raised_in b m = (case m of Inl e \<Rightarrow> Inl (e, b) | Inr v \<Rightarrow> Inr v)"

text \<open>\<open>GameBoard.switch_turns\<close>.\<close>

definition switch_turns :: "GameBoard \<Rightarrow> GameBoard" where
  "switch_turns b =
     (if turn b = White then b\<lparr>turn := Black\<rparr>
      else if turn b = Black then b\<lparr>turn := White\<rparr>
      else b)"

text \<open>\<open>GameBoard.place\<close>.\<close>

definition place :: "GameBoard \<Rightarrow> int \<Rightarrow> GameBoard result" where
  "place b location =
     (if \<not> (0 \<le> location \<and> location < (board_n b)\<^sup>2) then Inl (AssertionError, b)
      else
        and_then (raised_in b (py_index (squares b) location)) (\<lambda>square.
        let (x, y) = calc_center square;
            piece = \<lparr>p_location = location, p_color = turn b, p_x = x, p_y = y\<rparr>
        in and_then (raised_in b (py_store (pieces b) location (Some piece))) (\<lambda>ps.
             if turn b = White then Inr (b\<lparr>pieces := ps, white := white b + 1\<rparr>)
             else if turn b = Black then Inr (b\<lparr>pieces := ps, black := black b + 1\<rparr>)
             else Inr (b\<lparr>pieces := ps\<rparr>))))"

text \<open>
  \<open>GameBoard.flip_tile\<close>. The tile object is changed in place; reading the colour of
  \<open>None\<close> (or calling its \<open>flip\<close>) raises AttributeError.
\<close>

definition flip_tile :: "GameBoard \<Rightarrow> int \<Rightarrow> GameBoard result" where
  "flip_tile b location =
     (if \<not> (0 \<le> location \<and> location < (board_n b)\<^sup>2) then Inl (AssertionError, b)
      else
        and_then (raised_in b (py_index (pieces b) location)) (\<lambda>piece.
        and_then (raised_in b (py_index (squares b) location)) (\<lambda>square.
        and_then (raised_in b (is_empty square (pieces b))) (\<lambda>empty.
          case piece of
            None \<Rightarrow> Inl (AttributeError, b)
          | Some p \<Rightarrow>
              let p' = (if \<not> empty then change_color p else p);
                  b' = b\<lparr>pieces := (pieces b)[nat location := Some p']\<rparr>
              in if p_color p' = White
                 then Inr (b'\<lparr>white := white b' + 1, black := black b' - 1\<rparr>)
                 else if p_color p' = Black
                 then Inr (b'\<lparr>black := black b' + 1, white := white b' - 1\<rparr>)
                 else Inr b'))))"

text \<open>\<open>GameBoard.flip_tiles\<close>.\<close>

fun flip_tiles :: "GameBoard \<Rightarrow> GamePiece list \<Rightarrow> GameBoard result" where
  "flip_tiles b [] = Inr b"
| "flip_tiles b (tile # tile_list) =
     and_then (flip_tile b (p_location tile)) (\<lambda>b'. flip_tiles b' tile_list)"

text \<open>\<open>GameBoard.is_full\<close>.\<close>

definition is_full :: "GameBoard \<Rightarrow> bool" where
  "is_full b = list_all (\<lambda>tile. tile \<noteq> None) (pieces b)"

text \<open>\<open>GameBoard.end_game\<close>: the game is declared over.\<close>

definition end_game :: "GameBoard \<Rightarrow> GameBoard" where
  "end_game b = b\<lparr>ended := True\<rparr>"

text \<open>
  Switching the turn and computing the legal moves of the new turn, the three lines
  that \<open>make_move\<close> and \<open>computer_move\<close> share.
\<close>

definition next_turn :: "GameBoard \<Rightarrow> GameBoard result" where
  "next_turn b =
     (let b' = switch_turns b
      in and_then (raised_in b' (find_valid_moves b')) (\<lambda>moves. Inr (b'\<lparr>valid_moves := moves\<rparr>)))"

text \<open>\<open>GameBoard.make_move\<close>. A key that is missing from the dictionary raises KeyError.\<close>

definition make_move :: "GameBoard \<Rightarrow> int \<Rightarrow> GameBoard result" where
  "make_move b location =
     (if \<not> (0 \<le> location \<and> location < (board_n b)\<^sup>2) then Inl (AssertionError, b)
      else
        and_then (place b location) (\<lambda>b1.
          case map_of (valid_moves b1) location of
            None \<Rightarrow> Inl (KeyError, b1)
          | Some to_flip \<Rightarrow> and_then (flip_tiles b1 to_flip) next_turn))"

text \<open>
  \<open>GameBoard.choose_move\<close>: the loop over the keys of the dictionary with the best key
  and length so far. A dictionary has every key once, so the value looked up under a key
  is the one listed with it.
\<close>

fun choose_loop :: "(int \<times> GamePiece list) list \<Rightarrow> int \<Rightarrow> nat \<Rightarrow> int" where
  "choose_loop [] key len = key"
| "choose_loop ((k, v) # rest) key len =
     (let l = length v
      in if l > len then choose_loop rest k l else choose_loop rest key len)"

definition choose_move :: "GameBoard \<Rightarrow> int" where
  "choose_move b = choose_loop (valid_moves b) (- 1) 0"

text \<open>
  \<open>GameBoard.computer_move\<close> calls itself while the user has no move. The first argument
  is the recursion depth the interpreter still allows; at depth zero the call raises
  RecursionError.
\<close>

fun computer_move :: "nat \<Rightarrow> GameBoard \<Rightarrow> (bool \<times> GameBoard) result" where
  "computer_move 0 b = Inl (RecursionError, b)"
| "computer_move (Suc depth) b =
     (let choice = choose_move b
      in if choice \<noteq> - 1 then
           and_then (make_move b choice) (\<lambda>b1.
             let num_possible_user_moves = length (valid_moves b1)
             in if is_full b1 then Inr (True, end_game b1)
                else if num_possible_user_moves = 0 then
                  and_then (next_turn b1) (\<lambda>b2. computer_move depth b2)
                else Inr (True, b1))
         else and_then (next_turn b) (\<lambda>b'. Inr (False, b')))"

text \<open>
  \<open>GameBoard.play\<close>: the loop over the squares that looks for the clicked one, then the
  end of the game on a full board and the computer's turn. The source tests the global
  \<open>board\<close> for fullness, which is the object itself.
\<close>

fun play_loop :: "GameBoard \<Rightarrow> Square list \<Rightarrow> int \<Rightarrow> int \<Rightarrow> GameBoard result" where
  "play_loop b [] x y = Inr b"
| "play_loop b (square # rest) x y =
     (if was_clicked square x y \<and> sq_location square \<in> fst ` set (valid_moves b)
      then make_move b (sq_location square)
      else play_loop b rest x y)"

definition play :: "nat \<Rightarrow> GameBoard \<Rightarrow> int \<Rightarrow> int \<Rightarrow> GameBoard result" where
  "play depth b x y =
     and_then (play_loop b (squares b) x y) (\<lambda>b1.
       let b2 = (if is_full b1 then (end_game b1)\<lparr>turn := Black\<rparr> else b1)
       in if turn b2 = White then
            and_then (computer_move depth b2) (\<lambda>(comp_moved, b3).
              if \<not> comp_moved \<and> length (valid_moves b3) = 0 then Inr (end_game b3)
              else Inr b3)
          else Inr b2)"

section \<open>Construction of the board\<close>

text \<open>\<open>GameBoard.init_squares\<close>: the inner loop over the columns of one row with the
  running index and x coordinate, and the outer loop over the rows.\<close>

fun init_row :: "nat \<Rightarrow> int \<Rightarrow> int \<Rightarrow> int \<Rightarrow> Square list" where
  "init_row 0 index x_corner y_corner = []"
| "init_row (Suc k) index x_corner y_corner =
     \<lparr>sq_location = index, sq_x = x_corner, sq_y = y_corner, sq_size = SQUARE\<rparr>
       # init_row k (index + 1) (x_corner + SQUARE) y_corner"

fun init_rows :: "nat \<Rightarrow> nat \<Rightarrow> int \<Rightarrow> int \<Rightarrow> int \<Rightarrow> Square list" where
  "init_rows 0 cols index corner y_corner = []"
| "init_rows (Suc k) cols index corner y_corner =
     init_row cols index corner y_corner
       @ init_rows k cols (index + int cols) corner (y_corner + SQUARE)"

definition init_squares :: "GameBoard \<Rightarrow> int \<Rightarrow> Square list" where
  "init_squares b corner =
     init_rows (nat (board_n b)) (nat (board_n b)) 0 corner corner"

text \<open>
  \<open>GameBoard.find_center_squares\<close>, in the order \<open>(ul, ur, lr, ll)\<close>. The source computes
  \<open>int(0.5 * (n**2 + n))\<close> in floating point; \<open>n**2 + n\<close> is even and, on every board
  whose list of \<open>n * n\<close> pieces can be allocated, small enough for the product to be
  exact, so this is the exact half.
\<close>

definition find_center_squares :: "GameBoard \<Rightarrow> int list" where
  "find_center_squares b =
     (let ur = ((board_n b)\<^sup>2 + board_n b) div 2;
          ul = ur - 1;
          lr = ur - board_n b;
          ll = lr - 1
      in [ul, ur, lr, ll])"

text \<open>\<open>GameBoard.draw_start_tiles\<close>.\<close>

fun start_tiles_loop :: "GameBoard \<Rightarrow> int list \<Rightarrow> GameBoard result" where
  "start_tiles_loop b [] = Inr b"
| "start_tiles_loop b (location # rest) =
     and_then (place b location) (\<lambda>b'. start_tiles_loop (switch_turns b') rest)"

definition draw_start_tiles :: "GameBoard \<Rightarrow> GameBoard result" where
  "draw_start_tiles b = start_tiles_loop b (find_center_squares b)"

text \<open>The constructor \<open>GameBoard(n)\<close>.\<close>

definition new_GameBoard :: "int \<Rightarrow> GameBoard result" where
  "new_GameBoard n =
     (let b0 = \<lparr>board_n = n, turn = Black, pieces = replicate (nat (n * n)) None,
                black = 0, white = 0, squares = [], valid_moves = [], ended = False\<rparr>
      in if \<not> n \<ge> 4 then Inl (AssertionError, b0)
         else if \<not> n mod 2 \<noteq> 1 then Inl (AssertionError, b0)
         else
           let start = (- n * SQUARE) div 2;
               b1 = b0\<lparr>squares := init_squares b0 start\<rparr>
           in and_then (draw_start_tiles b1) (\<lambda>b2.
              and_then (raised_in b2 (find_valid_moves b2)) (\<lambda>moves.
                Inr (b2\<lparr>valid_moves := moves\<rparr>))))"

section \<open>Concrete boards\<close>

text \<open>The 4 by 4 board as \<open>draw_start_tiles\<close> leaves it, before the legal moves are computed.\<close>

definition board4 :: GameBoard where
  "board4 =
     \<lparr>board_n = 4, turn = Black,
      pieces = [None, None, None, None,
                None, Some \<lparr>p_location = 5, p_color = White, p_x = - 25, p_y = - 25\<rparr>,
                Some \<lparr>p_location = 6, p_color = Black, p_x = 25, p_y = - 25\<rparr>, None,
                None, Some \<lparr>p_location = 9, p_color = Black, p_x = - 25, p_y = 25\<rparr>,
                Some \<lparr>p_location = 10, p_color = White, p_x = 25, p_y = 25\<rparr>, None,
                None, None, None, None],
      black = 2, white = 2,
      squares = init_rows 4 4 0 (- 100) (- 100),
      valid_moves = [],
      ended = False\<rparr>"

text \<open>The table of the test of \<open>choose_move\<close>: keys 1 to 5 with 1, 2, 3, 4 and 1 tiles.\<close>

definition example_table :: "(int \<times> GamePiece list) list" where
  "example_table =
     (let a = \<lparr>p_location = 5, p_color = White, p_x = - 25, p_y = - 25\<rparr>
      in [(1, [a]), (2, [a, a]), (3, [a, a, a]), (4, [a, a, a, a]), (5, [a])])"

text \<open>The 4 by 4 board as the constructor returns it.\<close>

definition start4 :: GameBoard where
  "start4 =
     board4\<lparr>valid_moves :=
       [(1, [\<lparr>p_location = 5, p_color = White, p_x = - 25, p_y = - 25\<rparr>]),
        (4, [\<lparr>p_location = 5, p_color = White, p_x = - 25, p_y = - 25\<rparr>]),
        (11, [\<lparr>p_location = 10, p_color = White, p_x = 25, p_y = 25\<rparr>]),
        (14, [\<lparr>p_location = 10, p_color = White, p_x = 25, p_y = 25\<rparr>])]\<rparr>"

text \<open>The 8 by 8 board: the tiles that \<open>draw_start_tiles\<close> places, the board it leaves, and
  the board as the constructor returns it.\<close>

definition pieces8 :: "GamePiece option list" where
  "pieces8 =
     replicate 27 None
       @ [Some \<lparr>p_location = 27, p_color = White, p_x = - 25, p_y = - 25\<rparr>,
          Some \<lparr>p_location = 28, p_color = Black, p_x = 25, p_y = - 25\<rparr>]
       @ replicate 6 None
       @ [Some \<lparr>p_location = 35, p_color = Black, p_x = - 25, p_y = 25\<rparr>,
          Some \<lparr>p_location = 36, p_color = White, p_x = 25, p_y = 25\<rparr>]
       @ replicate 27 None"

definition board8 :: GameBoard where
  "board8 =
     \<lparr>board_n = 8, turn = Black, pieces = pieces8, black = 2, white = 2,
      squares = init_rows 8 8 0 (- 200) (- 200), valid_moves = [], ended = False\<rparr>"

definition start8 :: GameBoard where
  "start8 =
     board8\<lparr>valid_moves :=
       [(19, [\<lparr>p_location = 27, p_color = White, p_x = - 25, p_y = - 25\<rparr>]),
        (26, [\<lparr>p_location = 27, p_color = White, p_x = - 25, p_y = - 25\<rparr>]),
        (37, [\<lparr>p_location = 36, p_color = White, p_x = 25, p_y = 25\<rparr>]),
        (44, [\<lparr>p_location = 36, p_color = White, p_x = 25, p_y = 25\<rparr>])]\<rparr>"

section \<open>Specification of the scan along a direction\<close>

text \<open>
  The following definitions are written from the words of the specification, not from
  the code, to be compared with \<open>set_max_min\<close> and \<open>can_capture_in_direction\<close>. Index
  \<open>i\<close> is in row \<open>i div n\<close> and column \<open>i mod n\<close>; north is towards higher rows and east
  towards higher columns. A step is valid when the row and the column it reaches are both
  on the board, so a horizontal step never runs over the end of a row.
\<close>

fun row_step :: "direction \<Rightarrow> int" where
  "row_step North = 1"
| "row_step Northeast = 1"
| "row_step Northwest = 1"
| "row_step South = - 1"
| "row_step Southeast = - 1"
| "row_step Southwest = - 1"
| "row_step East = 0"
| "row_step West = 0"

fun col_step :: "direction \<Rightarrow> int" where
  "col_step East = 1"
| "col_step Northeast = 1"
| "col_step Southeast = 1"
| "col_step West = - 1"
| "col_step Northwest = - 1"
| "col_step Southwest = - 1"
| "col_step North = 0"
| "col_step South = 0"

text \<open>The indices reached from row \<open>r\<close>, column \<open>c\<close> by repeated valid steps, nearest first.\<close>

function spec_ray_from :: "int \<Rightarrow> int \<Rightarrow> int \<Rightarrow> direction \<Rightarrow> int list" where
  "spec_ray_from n r c d =
     (if 0 \<le> r + row_step d \<and> r + row_step d < n \<and> 0 \<le> c + col_step d \<and> c + col_step d < n
      then ((r + row_step d) * n + (c + col_step d))
             # spec_ray_from n (r + row_step d) (c + col_step d) d
      else [])"
  by pat_completeness auto
termination
proof (relation "measure (\<lambda>(n, r, c, d).
        nat (if row_step d = 1 then n - r
             else if row_step d = - 1 then r + 1
             else if col_step d = 1 then n - c
             else c + 1))")
  fix n r c :: int and d :: direction
  assume "0 \<le> r + row_step d \<and> r + row_step d < n
      \<and> 0 \<le> c + col_step d \<and> c + col_step d < n"
  then show "((n, r + row_step d, c + col_step d, d), n, r, c, d)
      \<in> measure (\<lambda>(n, r, c, d).
        nat (if row_step d = 1 then n - r
             else if row_step d = - 1 then r + 1
             else if col_step d = 1 then n - c
             else c + 1))"
    by (cases d) auto
qed simp

declare spec_ray_from.simps [simp del]

definition spec_ray :: "GameBoard \<Rightarrow> int \<Rightarrow> direction \<Rightarrow> int list" where
  "spec_ray b location d =
     spec_ray_from (board_n b) (location div board_n b) (location mod board_n b) d"

text \<open>
  The run of opponent tiles at the head of a sequence of cells, and whether that run is
  followed at once by a tile of the mover's own colour.
\<close>

fun opponent_run :: "color \<Rightarrow> GamePiece option list \<Rightarrow> GamePiece list" where
  "opponent_run t [] = []"
| "opponent_run t (None # cells) = []"
| "opponent_run t (Some p # cells) =
     (if p_color p \<noteq> t then p # opponent_run t cells else [])"

fun own_terminated :: "color \<Rightarrow> GamePiece option list \<Rightarrow> bool" where
  "own_terminated t [] = False"
| "own_terminated t (None # cells) = False"
| "own_terminated t (Some p # cells) =
     (if p_color p \<noteq> t then own_terminated t cells else True)"

text \<open>The cells of the board along the ray, and the captures the specification asks for.\<close>

definition spec_cells :: "GameBoard \<Rightarrow> int \<Rightarrow> direction \<Rightarrow> GamePiece option list" where
  "spec_cells b location d = map (\<lambda>i. pieces b ! nat i) (spec_ray b location d)"

definition spec_captures :: "GameBoard \<Rightarrow> int \<Rightarrow> direction \<Rightarrow> GamePiece list" where
  "spec_captures b location d =
     (if own_terminated (turn b) (spec_cells b location d)
      then opponent_run (turn b) (spec_cells b location d)
      else [])"

text \<open>The value of \<open>set_max_min\<close> by row and column, in closed form (used in the proofs).\<close>

fun edge_bound :: "int \<Rightarrow> int \<Rightarrow> int \<Rightarrow> direction \<Rightarrow> int" where
  "edge_bound n r c North = n * n - 1"
| "edge_bound n r c South = 0"
| "edge_bound n r c East = r * n + (n - 1)"
| "edge_bound n r c West = r * n"
| "edge_bound n r c Northeast = min (n * n - 1) (r * n + (n - 1) + (n - 1 - c) * n)"
| "edge_bound n r c Southeast = max 0 (r * n + (n - 1) - (n - 1 - c) * n)"
| "edge_bound n r c Northwest = min (n * n - 1) (r * n + c * n)"
| "edge_bound n r c Southwest = max 0 (r * n - c * n)"

text \<open>The test that ends \<open>can_capture_in_direction\<close>, on the outcome of its loop (used in
  the proofs).\<close>

definition final_test :: "color \<Rightarrow> GamePiece list option \<Rightarrow> GamePiece list" where
  "final_test t r =
     (case r of None \<Rightarrow> []
      | Some captured \<Rightarrow>
          if length captured > 0 \<and> p_color (last captured) = t then butlast captured else [])"

section \<open>Invariant and reachable states\<close>

text \<open>The number of tiles of a colour, and of occupied squares, in a list of pieces.\<close>

definition count_color :: "color \<Rightarrow> GamePiece option list \<Rightarrow> int" where
  "count_color col ps = int (length (filter (\<lambda>tile. \<exists>p. tile = Some p \<and> p_color p = col) ps))"

definition occupied :: "GamePiece option list \<Rightarrow> int" where
  "occupied ps = int (length (filter (\<lambda>tile. tile \<noteq> None) ps))"

text \<open>
  The board is laid out: one entry of \<open>pieces\<close> and one square per index, the squares in
  index order, and every tile carries the index of the square it is on.
\<close>

definition laid_out :: "GameBoard \<Rightarrow> bool" where
  "laid_out b \<longleftrightarrow>
     2 \<le> board_n b
     \<and> int (length (pieces b)) = (board_n b)\<^sup>2
     \<and> map sq_location (squares b) = map int [0..<length (pieces b)]
     \<and> (\<forall>i < length (pieces b). \<forall>p. pieces b ! i = Some p \<longrightarrow> p_location p = int i)"

text \<open>
  The legal-move table in the words of the specification: for every square in index
  order, the captures in the eight directions if the square is empty, and an entry for
  the square when there is something to capture.
\<close>

definition spec_captures_at :: "GameBoard \<Rightarrow> int \<Rightarrow> GamePiece list" where
  "spec_captures_at b location =
     (if pieces b ! nat location = None
      then concat (map (spec_captures b location) all_directions)
      else [])"

definition spec_legal_moves :: "GameBoard \<Rightarrow> (int \<times> GamePiece list) list" where
  "spec_legal_moves b =
     filter (\<lambda>kv. snd kv \<noteq> [])
       (map (\<lambda>i. (int i, spec_captures_at b (int i))) [0..<length (pieces b)])"

text \<open>The counters agree with the tiles on the board.\<close>

definition counted :: "GameBoard \<Rightarrow> bool" where
  "counted b \<longleftrightarrow>
     black b = count_color Black (pieces b) \<and> white b = count_color White (pieces b)"

text \<open>What \<open>place\<close> and \<open>flip_tile\<close> leave alone: everything but the tiles and the counters.\<close>

definition same_frame :: "GameBoard \<Rightarrow> GameBoard \<Rightarrow> bool" where
  "same_frame b b' \<longleftrightarrow>
     board_n b' = board_n b \<and> turn b' = turn b \<and> squares b' = squares b
     \<and> valid_moves b' = valid_moves b \<and> ended b' = ended b
     \<and> length (pieces b') = length (pieces b)"

text \<open>Which squares are empty.\<close>

definition vacancy :: "GameBoard \<Rightarrow> bool list" where
  "vacancy b = map (\<lambda>tile. tile = None) (pieces b)"

text \<open>
  The invariant of the game: the board is laid out, the counters agree with the tiles, and \<open>valid_moves\<close> is the table of the legal moves of the turn.
\<close>

definition invariant :: "GameBoard \<Rightarrow> bool" where
  "invariant b \<longleftrightarrow>
     laid_out b \<and> counted b \<and> find_valid_moves b = Inr (valid_moves b)"

text \<open>
  The states of a game: the board as constructed, then legal moves, passes, and whole
  calls of \<open>play\<close>.
\<close>

inductive reachable :: "GameBoard \<Rightarrow> bool" where
  start: "new_GameBoard n = Inr b \<Longrightarrow> reachable b"
| move: "reachable b \<Longrightarrow> location \<in> fst ` set (valid_moves b) \<Longrightarrow>
         make_move b location = Inr b' \<Longrightarrow> reachable b'"
| pass: "reachable b \<Longrightarrow> next_turn b = Inr b' \<Longrightarrow> reachable b'"
| click: "reachable b \<Longrightarrow> play depth b x y = Inr b' \<Longrightarrow> reachable b'"

text \<open>
  The number of empty squares: every move fills one, so it bounds the number of times
  \<open>computer_move\<close> can call itself.
\<close>

definition empties :: "GameBoard \<Rightarrow> nat" where
  "empties b = length (filter (\<lambda>tile. tile = None) (pieces b))"

text \<open>
  The state of the board when \<open>computer_move\<close> returns: the invariant holds, it is the
  other player's turn, a reported move leaves a full board or a user who can move, a
  reported pass was made with no legal move for the computer, and the game has been
  declared over only on a full board.
\<close>

definition returns_control :: "GameBoard \<Rightarrow> bool \<Rightarrow> GameBoard \<Rightarrow> bool" where
  "returns_control b moved b' \<longleftrightarrow>
     invariant b' \<and> board_n b' = board_n b \<and> squares b' = squares b
     \<and> turn b' = (if turn b = White then Black else White)
     \<and> (moved \<longrightarrow> is_full b' \<or> valid_moves b' \<noteq> [])
     \<and> (\<not> moved \<longrightarrow> find_valid_moves (switch_turns b') = Inr [])
     \<and> (ended b' \<longrightarrow> ended b \<or> is_full b')
     \<and> empties b' \<le> empties b"

section \<open>Verified properties\<close>

lemma squares_start4:
  "init_rows 4 4 0 (- 100) (- 100) =
     map (\<lambda>i. \<lparr>sq_location = i, sq_x = - 100 + 50 * (i mod 4), sq_y = - 100 + 50 * (i div 4),
                sq_size = 50\<rparr>)
       [0, 1, 2, 3, 4, 5, 6, 7, 8, 9, 10, 11, 12, 13, 14, 15]"
  by (simp add: eval_nat_numeral SQUARE_def)

subsection \<open>Flipping a tile\<close>

lemma flip_tile_occupied:
  assumes "0 \<le> loc" "loc < (board_n b)\<^sup>2" "loc < int (length (pieces b))"
    "loc < int (length (squares b))" "sq_location (squares b ! nat loc) = loc"
    "pieces b ! nat loc = Some p"
  shows "flip_tile b loc =
     Inr (if p_color p = Black
          then b\<lparr>pieces := (pieces b)[nat loc := Some (p\<lparr>p_color := White\<rparr>)],
                 white := white b + 1, black := black b - 1\<rparr>
          else b\<lparr>pieces := (pieces b)[nat loc := Some (p\<lparr>p_color := Black\<rparr>)],
                 black := black b + 1, white := white b - 1\<rparr>)"
  using assms
  by (cases "p_color p")
     (simp_all add: flip_tile_def and_then_def raised_in_def py_index_def is_empty_def
        change_color_def Let_def)

text \<open>
  Claim C10. On an occupied, in-range location whose square carries the same index,
  \<open>flip_tile\<close> toggles the colour of the tile and moves one unit of count from the old
  colour to the new one, so the sum of the counts is unchanged; a second call on the
  same location restores the board, colour and both counts included.
\<close>

theorem flip_tile_involution:
  assumes "0 \<le> loc" "loc < (board_n b)\<^sup>2" "loc < int (length (pieces b))"
    "loc < int (length (squares b))" "sq_location (squares b ! nat loc) = loc"
    "pieces b ! nat loc = Some p"
  shows "\<exists>b'. flip_tile b loc = Inr b'
      \<and> pieces b' ! nat loc = Some (p\<lparr>p_color := (if p_color p = Black then White else Black)\<rparr>)
      \<and> (p_color p = Black \<longrightarrow> black b' = black b - 1 \<and> white b' = white b + 1)
      \<and> (p_color p = White \<longrightarrow> white b' = white b - 1 \<and> black b' = black b + 1)
      \<and> black b' + white b' = black b + white b
      \<and> flip_tile b' loc = Inr b"
proof -
  let ?q = "p\<lparr>p_color := (if p_color p = Black then White else Black)\<rparr>"
  let ?b' = "if p_color p = Black
          then b\<lparr>pieces := (pieces b)[nat loc := Some (p\<lparr>p_color := White\<rparr>)],
                 white := white b + 1, black := black b - 1\<rparr>
          else b\<lparr>pieces := (pieces b)[nat loc := Some (p\<lparr>p_color := Black\<rparr>)],
                 black := black b + 1, white := white b - 1\<rparr>"
  have first: "flip_tile b loc = Inr ?b'"
    by (rule flip_tile_occupied [OF assms])
  have tile: "pieces ?b' ! nat loc = Some ?q"
    using assms(1,3) by simp
  have restore: "(pieces b)[nat loc := Some p] = pieces b"
    using assms(3,6) by (metis list_update_id)
  have pc: "p\<lparr>p_color := p_color p\<rparr> = p"
    by simp
  have second: "flip_tile ?b' loc = Inr b"
  proof (cases "p_color p")
    case Black
    have "flip_tile ?b' loc = Inr (if p_color ?q = Black
          then ?b'\<lparr>pieces := (pieces ?b')[nat loc := Some (?q\<lparr>p_color := White\<rparr>)],
                 white := white ?b' + 1, black := black ?b' - 1\<rparr>
          else ?b'\<lparr>pieces := (pieces ?b')[nat loc := Some (?q\<lparr>p_color := Black\<rparr>)],
                 black := black ?b' + 1, white := white ?b' - 1\<rparr>)"
      using assms Black by (intro flip_tile_occupied) simp_all
    moreover have "p\<lparr>p_color := Black\<rparr> = p"
      using Black pc by metis
    ultimately show ?thesis using Black restore by simp
  next
    case White
    have "flip_tile ?b' loc = Inr (if p_color ?q = Black
          then ?b'\<lparr>pieces := (pieces ?b')[nat loc := Some (?q\<lparr>p_color := White\<rparr>)],
                 white := white ?b' + 1, black := black ?b' - 1\<rparr>
          else ?b'\<lparr>pieces := (pieces ?b')[nat loc := Some (?q\<lparr>p_color := Black\<rparr>)],
                 black := black ?b' + 1, white := white ?b' - 1\<rparr>)"
      using assms White by (intro flip_tile_occupied) simp_all
    moreover have "p\<lparr>p_color := White\<rparr> = p"
      using White pc by metis
    ultimately show ?thesis using White restore by simp
  qed
  have counts: "(p_color p = Black \<longrightarrow> black ?b' = black b - 1 \<and> white ?b' = white b + 1)
      \<and> (p_color p = White \<longrightarrow> white ?b' = white b - 1 \<and> black ?b' = black b + 1)
      \<and> black ?b' + white ?b' = black b + white b"
    by simp
  show ?thesis
    using first tile second counts by blast
qed

theorem flip_tile_involution_witness:
  "\<exists>b'. flip_tile board4 5 = Inr b'
      \<and> pieces b' ! 5 = Some \<lparr>p_location = 5, p_color = Black, p_x = - 25, p_y = - 25\<rparr>
      \<and> white b' = 1 \<and> black b' = 3
      \<and> flip_tile b' 5 = Inr board4"
proof -
  let ?p = "\<lparr>p_location = 5, p_color = White, p_x = - 25, p_y = - 25\<rparr>"
  have h: "(0::int) \<le> 5" "5 < (board_n board4)\<^sup>2" "5 < int (length (pieces board4))"
    "5 < int (length (squares board4))" "sq_location (squares board4 ! nat 5) = 5"
    "pieces board4 ! nat 5 = Some ?p"
    by (simp_all add: board4_def squares_start4)
  from flip_tile_involution [OF h] obtain b' where
    r: "flip_tile board4 5 = Inr b'"
      "pieces b' ! nat 5 = Some (?p\<lparr>p_color := (if p_color ?p = Black then White else Black)\<rparr>)"
      "p_color ?p = White \<longrightarrow> white b' = white board4 - 1 \<and> black b' = black board4 + 1"
      "flip_tile b' 5 = Inr board4"
    by blast
  have "white b' = 1 \<and> black b' = 3"
    using r(3) by (simp add: board4_def)
  moreover have "pieces b' ! 5 = Some \<lparr>p_location = 5, p_color = Black, p_x = - 25, p_y = - 25\<rparr>"
    using r(2) by simp
  ultimately show ?thesis using r(1,4) by blast
qed

subsection \<open>The hit test of a square\<close>

lemma init_row_grid:
  "sq \<in> set (init_row k index x0 y0) \<Longrightarrow>
   \<exists>j. sq_x sq = x0 + int j * SQUARE \<and> sq_y sq = y0 \<and> sq_size sq = SQUARE"
proof (induction k arbitrary: index x0)
  case 0
  then show ?case by simp
next
  case (Suc k)
  from Suc.prems consider
    "sq = \<lparr>sq_location = index, sq_x = x0, sq_y = y0, sq_size = SQUARE\<rparr>"
    | "sq \<in> set (init_row k (index + 1) (x0 + SQUARE) y0)" by auto
  then show ?case
  proof cases
    case 1
    then show ?thesis by (intro exI [of _ 0]) simp
  next
    case 2
    from Suc.IH [OF 2] obtain j where
      "sq_x sq = x0 + SQUARE + int j * SQUARE \<and> sq_y sq = y0 \<and> sq_size sq = SQUARE" by blast
    then show ?thesis by (intro exI [of _ "Suc j"]) (simp add: algebra_simps)
  qed
qed

lemma init_rows_grid:
  "sq \<in> set (init_rows k cols index corner y0) \<Longrightarrow>
   \<exists>i j. sq_x sq = corner + int j * SQUARE \<and> sq_y sq = y0 + int i * SQUARE
      \<and> sq_size sq = SQUARE"
proof (induction k arbitrary: index y0)
  case 0
  then show ?case by simp
next
  case (Suc k)
  from Suc.prems consider "sq \<in> set (init_row cols index corner y0)"
    | "sq \<in> set (init_rows k cols (index + int cols) corner (y0 + SQUARE))" by auto
  then show ?case
  proof cases
    case 1
    from init_row_grid [OF 1] obtain j where
      "sq_x sq = corner + int j * SQUARE \<and> sq_y sq = y0 \<and> sq_size sq = SQUARE" by blast
    then show ?thesis by (intro exI [of _ 0] exI [of _ j]) simp
  next
    case 2
    from Suc.IH [OF 2] obtain i j where
      "sq_x sq = corner + int j * SQUARE \<and> sq_y sq = y0 + SQUARE + int i * SQUARE
        \<and> sq_size sq = SQUARE" by blast
    then show ?thesis by (intro exI [of _ "Suc i"] exI [of _ j]) (simp add: algebra_simps)
  qed
qed

lemma no_multiple_between: "\<not> (int j * SQUARE < k * SQUARE \<and> k * SQUARE < int j * SQUARE + SQUARE)"
  unfolding SQUARE_def by presburger

text \<open>
  Claim C8, as amended. \<open>was_clicked\<close> holds exactly for the clicks strictly inside the
  square (the open box, both bounds excluded), and a click on a grid line of the board
  is inside none of its squares.
\<close>

theorem was_clicked_open_box:
  "(was_clicked sq x y \<longleftrightarrow>
      sq_x sq < x \<and> x < sq_x sq + sq_size sq \<and> sq_y sq < y \<and> y < sq_y sq + sq_size sq)
   \<and> (\<forall>sq' \<in> set (init_squares b corner). \<forall>k.
        x = corner + k * SQUARE \<or> y = corner + k * SQUARE \<longrightarrow> \<not> was_clicked sq' x y)"
proof -
  have grid: "\<not> was_clicked sq' x y"
    if mem: "sq' \<in> set (init_squares b corner)"
      and line: "x = corner + k * SQUARE \<or> y = corner + k * SQUARE" for sq' k
  proof -
    from mem obtain i j where g: "sq_x sq' = corner + int j * SQUARE"
      "sq_y sq' = corner + int i * SQUARE" "sq_size sq' = SQUARE"
      unfolding init_squares_def using init_rows_grid by blast
    from line show ?thesis
    proof
      assume "x = corner + k * SQUARE"
      then show ?thesis
        using no_multiple_between [of j k] g by (auto simp: was_clicked_def)
    next
      assume "y = corner + k * SQUARE"
      then show ?thesis
        using no_multiple_between [of i k] g by (auto simp: was_clicked_def)
    qed
  qed
  show ?thesis using grid by (auto simp: was_clicked_def)
qed

theorem was_clicked_closed_open_counterexample:
  "\<not> (was_clicked \<lparr>sq_location = 0, sq_x = 0, sq_y = 0, sq_size = 50\<rparr> 0 25
        \<longleftrightarrow> (0::int) \<le> 0 \<and> (0::int) < 0 + 50 \<and> (0::int) \<le> 25 \<and> (25::int) < 0 + 50)"
  by (simp add: was_clicked_def)

theorem was_clicked_open_box_witness:
  "\<lparr>sq_location = 0, sq_x = - 100, sq_y = - 100, sq_size = 50\<rparr>
      \<in> set (init_squares board4 (- 100))
   \<and> \<not> was_clicked \<lparr>sq_location = 0, sq_x = - 100, sq_y = - 100, sq_size = 50\<rparr> (- 50) (- 75)
   \<and> was_clicked \<lparr>sq_location = 0, sq_x = - 100, sq_y = - 100, sq_size = 50\<rparr> (- 51) (- 75)"
proof -
  let ?sq = "\<lparr>sq_location = 0, sq_x = - 100, sq_y = - 100, sq_size = 50\<rparr>"
  have mem: "?sq \<in> set (init_squares board4 (- 100))"
    by (simp add: init_squares_def board4_def squares_start4)
  have line: "(- 50 :: int) = - 100 + 1 * SQUARE"
    by (simp add: SQUARE_def)
  from was_clicked_open_box [of ?sq "- 51" "- 75" board4 "- 100"]
  have inside: "was_clicked ?sq (- 51) (- 75)" by simp
  from was_clicked_open_box [of ?sq "- 50" "- 75" board4 "- 100"]
  have "\<forall>sq' \<in> set (init_squares board4 (- 100)). \<forall>k.
        - 50 = - 100 + k * SQUARE \<or> - 75 = - 100 + k * SQUARE \<longrightarrow> \<not> was_clicked sq' (- 50) (- 75)"
    by blast
  with mem line have "\<not> was_clicked ?sq (- 50) (- 75)" by blast
  with mem inside show ?thesis by blast
qed

subsection \<open>The computer player\<close>

lemma choose_loop_keep:
  "\<forall>kv \<in> set xs. length (snd kv) \<le> len \<Longrightarrow> choose_loop xs key len = key"
  by (induction xs arbitrary: key len) (auto simp: Let_def)

lemma choose_loop_lengths:
  "map (\<lambda>kv. (fst kv, length (snd kv))) xs = map (\<lambda>kv. (fst kv, length (snd kv))) ys
   \<Longrightarrow> choose_loop xs key len = choose_loop ys key len"
proof (induction xs arbitrary: ys key len)
  case Nil
  then show ?case by simp
next
  case (Cons kv xs)
  then obtain kv' ys' where ys: "ys = kv' # ys'" by (cases ys) auto
  obtain k v where kv: "kv = (k, v)" by (cases kv)
  obtain k' v' where kv': "kv' = (k', v')" by (cases kv')
  from Cons.prems have same: "k = k'" "length v = length v'"
    and rest: "map (\<lambda>kv. (fst kv, length (snd kv))) xs = map (\<lambda>kv. (fst kv, length (snd kv))) ys'"
    by (simp_all add: ys kv kv')
  show ?case
    using Cons.IH [OF rest] same by (simp add: ys kv kv' Let_def)
qed

lemma choose_loop_first_max:
  "\<exists>kv \<in> set xs. len < length (snd kv) \<Longrightarrow>
   \<exists>i < length xs. choose_loop xs key len = fst (xs ! i) \<and> len < length (snd (xs ! i))
      \<and> (\<forall>j < length xs. length (snd (xs ! j)) \<le> length (snd (xs ! i)))
      \<and> (\<forall>j < i. length (snd (xs ! j)) < length (snd (xs ! i)))"
proof (induction xs arbitrary: key len)
  case Nil
  then show ?case by simp
next
  case (Cons kv rest)
  obtain k v where kv: "kv = (k, v)" by (cases kv)
  show ?case
  proof (cases "len < length v")
    case True
    show ?thesis
    proof (cases "\<exists>e \<in> set rest. length v < length (snd e)")
      case False
      then have all: "\<forall>e \<in> set rest. length (snd e) \<le> length v" by auto
      have res: "choose_loop (kv # rest) key len = k"
        using True choose_loop_keep [OF all] by (simp add: kv)
      have bound: "\<forall>j < length (kv # rest). length (snd ((kv # rest) ! j)) \<le> length v"
        using all by (auto simp: kv nth_Cons split: nat.splits)
      show ?thesis
        using res True bound by (intro exI [of _ 0]) (simp add: kv)
    next
      case more: True
      from Cons.IH [OF more, of k] obtain i where i: "i < length rest"
        and r: "choose_loop rest k (length v) = fst (rest ! i)"
        and g: "length v < length (snd (rest ! i))"
        and mx: "\<forall>j < length rest. length (snd (rest ! j)) \<le> length (snd (rest ! i))"
        and fs: "\<forall>j < i. length (snd (rest ! j)) < length (snd (rest ! i))"
        by blast
      have "choose_loop (kv # rest) key len = fst ((kv # rest) ! Suc i)"
        using True r by (simp add: kv)
      moreover have "len < length (snd ((kv # rest) ! Suc i))"
        using True g by simp
      moreover have "\<forall>j < length (kv # rest).
          length (snd ((kv # rest) ! j)) \<le> length (snd ((kv # rest) ! Suc i))"
        using mx g by (auto simp: kv nth_Cons split: nat.splits)
      moreover have "\<forall>j < Suc i.
          length (snd ((kv # rest) ! j)) < length (snd ((kv # rest) ! Suc i))"
        using fs g by (auto simp: kv nth_Cons split: nat.splits)
      ultimately show ?thesis using i by (intro exI [of _ "Suc i"]) simp
    qed
  next
    case False
    with Cons.prems have more: "\<exists>e \<in> set rest. len < length (snd e)"
      by (auto simp: kv)
    from Cons.IH [OF more, of key] obtain i where i: "i < length rest"
      and r: "choose_loop rest key len = fst (rest ! i)"
      and g: "len < length (snd (rest ! i))"
      and mx: "\<forall>j < length rest. length (snd (rest ! j)) \<le> length (snd (rest ! i))"
      and fs: "\<forall>j < i. length (snd (rest ! j)) < length (snd (rest ! i))"
      by blast
    have "choose_loop (kv # rest) key len = fst ((kv # rest) ! Suc i)"
      using False r by (simp add: kv)
    moreover have "len < length (snd ((kv # rest) ! Suc i))"
      using g by simp
    moreover have "\<forall>j < length (kv # rest).
        length (snd ((kv # rest) ! j)) \<le> length (snd ((kv # rest) ! Suc i))"
      using mx g False by (auto simp: kv nth_Cons split: nat.splits)
    moreover have "\<forall>j < Suc i.
        length (snd ((kv # rest) ! j)) < length (snd ((kv # rest) ! Suc i))"
      using fs g False by (auto simp: kv nth_Cons split: nat.splits)
    ultimately show ?thesis using i by (intro exI [of _ "Suc i"]) simp
  qed
qed

lemma update_new_key:
  "k \<notin> fst ` set al \<Longrightarrow> AList.update k v al = al @ [(k, v)]"
  by (induction al) auto

lemma valid_moves_loop_keys:
  "valid_moves_loop b sqs moves = Inr m \<Longrightarrow>
   sorted_wrt (<) (map fst moves @ map sq_location sqs) \<Longrightarrow> sorted_wrt (<) (map fst m)"
proof (induction sqs arbitrary: moves)
  case Nil
  then show ?case by simp
next
  case (Cons sq rest)
  from Cons.prems(1) obtain cc where cc: "all_can_capture b (sq_location sq) = Inr cc"
    and loop: "valid_moves_loop b rest
         (if cc \<noteq> [] then AList.update (sq_location sq) cc moves else moves) = Inr m"
    by (auto simp: and_then_def split: sum.splits)
  have fresh: "sq_location sq \<notin> fst ` set moves"
    using Cons.prems(2) by (auto simp: sorted_wrt_append)
  have "sorted_wrt (<) (map fst (if cc \<noteq> [] then AList.update (sq_location sq) cc moves else moves)
          @ map sq_location rest)"
    using Cons.prems(2) by (auto simp: update_new_key [OF fresh] sorted_wrt_append)
  from Cons.IH [OF loop this] show ?case .
qed

lemma sorted_int_upt: "sorted_wrt (<) (map int [0..<k])"
  by (simp add: sorted_wrt_map sorted_wrt_upt [unfolded sorted_wrt_iff_nth_less] sorted_wrt_iff_nth_less)

text \<open>
  Claim C6. \<open>choose_move\<close> returns \<open>-1\<close> when no entry of the table has a tile to
  capture (the empty table included). Otherwise it returns a key whose capture list is
  of maximal length, and every entry before it in the iteration order is strictly
  shorter, so ties go to the first key met. On a table with the keys 1 to 5 and capture
  lists of lengths 1, 2, 3, 4, 1 it returns 4. The table that \<open>find_valid_moves\<close> builds
  from squares listed by ascending index has its keys in ascending order.
\<close>

theorem choose_move_first_maximal:
  "((\<forall>kv \<in> set (valid_moves b). snd kv = []) \<longrightarrow> choose_move b = - 1)
   \<and> ((\<exists>kv \<in> set (valid_moves b). snd kv \<noteq> []) \<longrightarrow>
        (\<exists>i < length (valid_moves b). choose_move b = fst (valid_moves b ! i)
           \<and> (\<forall>j < length (valid_moves b).
                 length (snd (valid_moves b ! j)) \<le> length (snd (valid_moves b ! i)))
           \<and> (\<forall>j < i. length (snd (valid_moves b ! j)) < length (snd (valid_moves b ! i)))))
   \<and> (map (\<lambda>kv. (fst kv, length (snd kv))) (valid_moves b)
         = [(1, 1), (2, 2), (3, 3), (4, 4), (5, 1)] \<longrightarrow> choose_move b = 4)
   \<and> (\<forall>m. map sq_location (squares b) = map int [0..<length (squares b)]
         \<and> find_valid_moves b = Inr m \<longrightarrow> sorted_wrt (<) (map fst m))"
proof -
  have none: "choose_move b = - 1" if "\<forall>kv \<in> set (valid_moves b). snd kv = []"
    unfolding choose_move_def using that by (intro choose_loop_keep) simp
  have some: "\<exists>i < length (valid_moves b). choose_move b = fst (valid_moves b ! i)
           \<and> (\<forall>j < length (valid_moves b).
                 length (snd (valid_moves b ! j)) \<le> length (snd (valid_moves b ! i)))
           \<and> (\<forall>j < i. length (snd (valid_moves b ! j)) < length (snd (valid_moves b ! i)))"
    if "\<exists>kv \<in> set (valid_moves b). snd kv \<noteq> []"
  proof -
    from that have "\<exists>kv \<in> set (valid_moves b). 0 < length (snd kv)" by simp
    from choose_loop_first_max [OF this, of "- 1"] show ?thesis
      unfolding choose_move_def by blast
  qed
  have example: "choose_move b = 4"
    if "map (\<lambda>kv. (fst kv, length (snd kv))) (valid_moves b)
         = [(1, 1), (2, 2), (3, 3), (4, 4), (5, 1)]"
  proof -
    define a :: GamePiece where "a = \<lparr>p_location = 0, p_color = White, p_x = 0, p_y = 0\<rparr>"
    have "map (\<lambda>kv. (fst kv, length (snd kv))) (valid_moves b)
        = map (\<lambda>kv. (fst kv, length (snd kv)))
            [(1, [a]), (2, [a, a]), (3, [a, a, a]), (4, [a, a, a, a]), (5, [a])]"
      using that by simp
    from choose_loop_lengths [OF this] show ?thesis
      by (simp add: choose_move_def)
  qed
  have ascending: "sorted_wrt (<) (map fst m)"
    if "map sq_location (squares b) = map int [0..<length (squares b)]"
      and "find_valid_moves b = Inr m" for m
    using valid_moves_loop_keys [of b "squares b" "[]" m] that sorted_int_upt
    by (simp add: find_valid_moves_def)
  show ?thesis
    using none some example ascending by blast
qed

text \<open>Evaluation on concrete boards: the continuation of a sequencing step is left alone
  until the step itself has been computed.\<close>

lemma and_then_weak_cong: "r = r' \<Longrightarrow> and_then r k = and_then r' k"
  by simp

lemma and_then_Inr: "and_then (Inr v) k = k v"
  and and_then_Inl: "and_then (Inl e) k = Inl e"
  by (simp_all add: and_then_def)

lemmas eval_moves = find_valid_moves_def all_can_capture_def
  can_capture_in_direction_def set_max_min_def and_then_Inr and_then_Inl py_index_def
  is_empty_def all_directions_def Let_def py_range.simps

lemma find_valid_moves_board4:
  "find_valid_moves board4 =
     Inr [(1, [\<lparr>p_location = 5, p_color = White, p_x = - 25, p_y = - 25\<rparr>]),
          (4, [\<lparr>p_location = 5, p_color = White, p_x = - 25, p_y = - 25\<rparr>]),
          (11, [\<lparr>p_location = 10, p_color = White, p_x = 25, p_y = 25\<rparr>]),
          (14, [\<lparr>p_location = 10, p_color = White, p_x = 25, p_y = 25\<rparr>])]"
  by (simp cong: and_then_weak_cong add: board4_def squares_start4 eval_moves)

theorem choose_move_first_maximal_witness:
  "choose_move (board4\<lparr>valid_moves := [(3, [])]\<rparr>) = - 1
   \<and> choose_move (board4\<lparr>valid_moves := example_table\<rparr>) = 4
   \<and> (\<exists>i < 5. fst (example_table ! i) = 4
        \<and> (\<forall>j < 5. length (snd (example_table ! j)) \<le> length (snd (example_table ! i))))
   \<and> (\<exists>m. find_valid_moves board4 = Inr m \<and> sorted_wrt (<) (map fst m))"
proof -
  let ?e = "board4\<lparr>valid_moves := [(3, [])]\<rparr>"
  let ?b = "board4\<lparr>valid_moves := example_table\<rparr>"
  have "\<forall>kv \<in> set (valid_moves ?e). snd kv = []" by simp
  with choose_move_first_maximal [of ?e] have none: "choose_move ?e = - 1" by blast
  have "map (\<lambda>kv. (fst kv, length (snd kv))) (valid_moves ?b)
         = [(1, 1), (2, 2), (3, 3), (4, 4), (5, 1)]"
    by (simp add: example_table_def Let_def)
  with choose_move_first_maximal [of ?b] have four: "choose_move ?b = 4" by blast
  have "\<exists>kv \<in> set (valid_moves ?b). snd kv \<noteq> []"
    by (simp add: example_table_def Let_def)
  moreover have "(\<exists>kv \<in> set (valid_moves ?b). snd kv \<noteq> []) \<longrightarrow>
        (\<exists>i < length (valid_moves ?b). choose_move ?b = fst (valid_moves ?b ! i)
           \<and> (\<forall>j < length (valid_moves ?b).
                 length (snd (valid_moves ?b ! j)) \<le> length (snd (valid_moves ?b ! i)))
           \<and> (\<forall>j < i. length (snd (valid_moves ?b ! j)) < length (snd (valid_moves ?b ! i))))"
    by (rule conjunct1 [OF conjunct2 [OF choose_move_first_maximal [of ?b]]])
  ultimately obtain i where
    i: "i < length (valid_moves ?b)" "choose_move ?b = fst (valid_moves ?b ! i)"
      "\<forall>j < length (valid_moves ?b).
          length (snd (valid_moves ?b ! j)) \<le> length (snd (valid_moves ?b ! i))"
    by blast
  have len: "length (valid_moves ?b) = 5" by (simp add: example_table_def Let_def)
  have best: "\<exists>i < 5. fst (example_table ! i) = 4
        \<and> (\<forall>j < 5. length (snd (example_table ! j)) \<le> length (snd (example_table ! i)))"
    using i four len by (intro exI [of _ i]) simp
  have sq: "map sq_location (squares board4) = map int [0..<length (squares board4)]"
    by (simp add: board4_def squares_start4 upt_rec)
  obtain m where m: "find_valid_moves board4 = Inr m"
    using find_valid_moves_board4 by blast
  with choose_move_first_maximal [of board4] sq have "sorted_wrt (<) (map fst m)" by blast
  with m none four best show ?thesis by blast
qed

subsection \<open>Board geometry\<close>

lemma idx_le:
  fixes n a b c c' :: int
  assumes "0 < n" "0 \<le> c" "c < n" "0 \<le> c'" "c' < n"
  shows "a * n + c \<le> b * n + c' \<longleftrightarrow> a < b \<or> (a = b \<and> c \<le> c')"
proof -
  consider "a < b" | "a = b" | "b < a" by linarith
  then show ?thesis
  proof cases
    case 1
    then have "(a + 1) * n \<le> b * n" using assms(1) by (intro mult_right_mono) auto
    then have "a * n + n \<le> b * n" by (simp add: algebra_simps)
    with 1 assms show ?thesis by simp
  next
    case 2
    then show ?thesis by simp
  next
    case 3
    then have "(b + 1) * n \<le> a * n" using assms(1) by (intro mult_right_mono) auto
    then have "b * n + n \<le> a * n" by (simp add: algebra_simps)
    with 3 assms show ?thesis by simp
  qed
qed

lemma idx_div_mod:
  fixes n r c :: int
  assumes "0 < n" "0 \<le> c" "c < n"
  shows "(r * n + c) div n = r" "(r * n + c) mod n = c"
  using assms by (simp_all add: div_pos_pos_trivial)

lemma loc_row_col:
  fixes n loc :: int
  assumes "0 < n" "0 \<le> loc" "loc < n\<^sup>2"
  shows "0 \<le> loc div n" "loc div n < n" "0 \<le> loc mod n" "loc mod n < n"
    "(loc div n) * n + loc mod n = loc"
proof -
  show c: "0 \<le> loc mod n" "loc mod n < n" using assms(1) by simp_all
  show e: "(loc div n) * n + loc mod n = loc" by simp
  show "0 \<le> loc div n" using assms by (simp add: pos_imp_zdiv_nonneg_iff)
  show "loc div n < n"
  proof (rule ccontr)
    assume "\<not> loc div n < n"
    then have "n * n \<le> (loc div n) * n" using assms(1) by (intro mult_right_mono) auto
    also have "\<dots> \<le> loc" using c(1) e by linarith
    finally show False using assms(3) by (simp add: power2_eq_square)
  qed
qed

lemma idx_in_board:
  fixes n r c :: int
  assumes "0 < n" "0 \<le> r" "r < n" "0 \<le> c" "c < n"
  shows "0 \<le> r * n + c" "r * n + c < n\<^sup>2"
proof -
  show "0 \<le> r * n + c" using assms by simp
  have "r * n + c \<le> (n - 1) * n + (n - 1)"
    using idx_le [of n c "n - 1" r "n - 1"] assms by auto
  then show "r * n + c < n\<^sup>2" by (simp add: power2_eq_square algebra_simps)
qed

lemma set_max_min_rc:
  assumes "0 < board_n b" "0 \<le> r" "r < board_n b" "0 \<le> c" "c < board_n b"
  shows "set_max_min b (r * board_n b + c) d = Inr (edge_bound (board_n b) r c d)"
proof -
  have rng: "0 \<le> r * board_n b + c" "r * board_n b + c < (board_n b)\<^sup>2"
    using idx_in_board [OF assms] .
  have dm: "(r * board_n b + c) div board_n b = r" "(r * board_n b + c) mod board_n b = c"
    using idx_div_mod [OF assms(1,4,5)] .
  have cm: "c mod board_n b = c" "c div board_n b = 0"
    using assms by simp_all
  show ?thesis
    using rng
    by (cases d) (simp_all add: set_max_min_def dm cm Let_def min_def max_def power2_eq_square)
qed

lemma step_index:
  "r * board_n b + c + set_increment b d
     = (r + row_step d) * board_n b + (c + col_step d)"
  by (cases d) (simp_all add: algebra_simps)

lemma edge_bound_step:
  "0 \<le> c + col_step d \<Longrightarrow> c + col_step d < n \<Longrightarrow>
   edge_bound n (r + row_step d) (c + col_step d) d = edge_bound n r c d"
  by (cases d) (simp_all add: algebra_simps)

lemma scan_up:
  fixes n r c :: int
  assumes n: "2 \<le> n" and rc: "0 \<le> r" "r < n" "0 \<le> c" "c < n"
    and up: "d \<in> {North, East, Northeast, Northwest}"
  shows "(r + row_step d) * n + (c + col_step d) \<le> edge_bound n r c d \<longleftrightarrow>
     0 \<le> r + row_step d \<and> r + row_step d < n \<and> 0 \<le> c + col_step d \<and> c + col_step d < n"
proof -
  have top: "n * n - 1 = (n - 1) * n + (n - 1)" by (simp add: algebra_simps)
  consider "d = North" | "d = East" | "d = Northeast" | "d = Northwest" using up by auto
  then show ?thesis
  proof cases
    case 1
    show ?thesis
      using idx_le [of n c "n - 1" "r + 1" "n - 1"] n rc by (auto simp: 1 top)
  next
    case 2
    show ?thesis using n rc by (auto simp: 2)
  next
    case 3
    show ?thesis
    proof (cases "c + 1 < n")
      case True
      have u: "r * n + (n - 1) + (n - 1 - c) * n = (r + n - 1 - c) * n + (n - 1)"
        by (simp add: algebra_simps)
      show ?thesis
        using idx_le [of n "c + 1" "n - 1" "r + 1" "n - 1"]
          idx_le [of n "c + 1" "n - 1" "r + 1" "r + n - 1 - c"] n rc True
        by (auto simp: 3 top u)
    next
      case False
      then have c: "c = n - 1" using rc by simp
      show ?thesis using n rc by (simp add: 3 c algebra_simps)
    qed
  next
    case 4
    show ?thesis
    proof (cases "1 \<le> c")
      case True
      have u: "r * n + c * n = (r + c) * n + 0" by (simp add: algebra_simps)
      show ?thesis
        using idx_le [of n "c - 1" "n - 1" "r + 1" "n - 1"]
          idx_le [of n "c - 1" 0 "r + 1" "r + c"] n rc True
        by (auto simp: 4 top u)
    next
      case False
      then have c: "c = 0" using rc by simp
      show ?thesis using n rc by (simp add: 4 c algebra_simps)
    qed
  qed
qed

lemma scan_down:
  fixes n r c :: int
  assumes n: "2 \<le> n" and rc: "0 \<le> r" "r < n" "0 \<le> c" "c < n"
    and down: "d \<in> {South, West, Southeast, Southwest}"
  shows "edge_bound n r c d \<le> (r + row_step d) * n + (c + col_step d) \<longleftrightarrow>
     0 \<le> r + row_step d \<and> r + row_step d < n \<and> 0 \<le> c + col_step d \<and> c + col_step d < n"
proof -
  consider "d = South" | "d = West" | "d = Southeast" | "d = Southwest" using down by auto
  then show ?thesis
  proof cases
    case 1
    show ?thesis
      using idx_le [of n 0 c 0 "r - 1"] n rc by (auto simp: 1)
  next
    case 2
    show ?thesis using n rc by (auto simp: 2)
  next
    case 3
    show ?thesis
    proof (cases "c + 1 < n")
      case True
      have u: "r * n + (n - 1) - (n - 1 - c) * n = (r - (n - 1 - c)) * n + (n - 1)"
        by (simp add: algebra_simps)
      show ?thesis
        using idx_le [of n 0 "c + 1" 0 "r - 1"]
          idx_le [of n "n - 1" "c + 1" "r - (n - 1 - c)" "r - 1"] n rc True
        by (auto simp: 3 u)
    next
      case False
      then have c: "c = n - 1" using rc by simp
      show ?thesis using n rc by (simp add: 3 c algebra_simps)
    qed
  next
    case 4
    show ?thesis
    proof (cases "1 \<le> c")
      case True
      have u: "r * n - c * n = (r - c) * n + 0" by (simp add: algebra_simps)
      show ?thesis
        using idx_le [of n 0 "c - 1" 0 "r - 1"]
          idx_le [of n 0 "c - 1" "r - c" "r - 1"] n rc True
        by (auto simp: 4 u)
    next
      case False
      then have c: "c = 0" using rc by simp
      show ?thesis using n rc by (simp add: 4 c algebra_simps)
    qed
  qed
qed


lemma increment_sign:
  assumes "2 \<le> board_n b"
  shows "d \<in> {North, East, Northeast, Northwest} \<Longrightarrow> 0 < set_increment b d"
    and "d \<in> {South, West, Southeast, Southwest} \<Longrightarrow> set_increment b d < 0"
  using assms by auto

lemma up_or_down:
  "d \<in> {North, East, Northeast, Northwest} \<or> d \<in> {South, West, Southeast, Southwest}"
  by (cases d) auto

lemma scan_range:
  assumes "2 \<le> board_n b" "0 \<le> r" "r < board_n b" "0 \<le> c" "c < board_n b"
  shows "py_range (r * board_n b + c + set_increment b d)
           (if set_increment b d \<le> 0 then edge_bound (board_n b) r c d - 1
            else edge_bound (board_n b) r c d + 1)
           (set_increment b d)
         = spec_ray_from (board_n b) r c d"
  using assms
proof (induction "board_n b" r c d rule: spec_ray_from.induct)
  case (1 r c d)
  let ?n = "board_n b"
  let ?inc = "set_increment b d"
  let ?e = "edge_bound ?n r c d"
  let ?r = "r + row_step d" and ?c = "c + col_step d"
  let ?valid = "0 \<le> ?r \<and> ?r < ?n \<and> 0 \<le> ?c \<and> ?c < ?n"
  let ?stop = "if ?inc \<le> 0 then ?e - 1 else ?e + 1"
  have start: "r * ?n + c + ?inc = ?r * ?n + ?c" by (rule step_index)
  have cond: "(0 < ?inc \<and> ?r * ?n + ?c < ?stop) \<or> (?inc < 0 \<and> ?stop < ?r * ?n + ?c)
      \<longleftrightarrow> ?valid"
  proof (cases "d \<in> {North, East, Northeast, Northwest}")
    case True
    from increment_sign(1) [OF "1.prems"(1) True] have pos: "0 < ?inc" .
    from scan_up [OF "1.prems" True] show ?thesis using pos by auto
  next
    case False
    with up_or_down [of d] have down: "d \<in> {South, West, Southeast, Southwest}" by blast
    from increment_sign(2) [OF "1.prems"(1) down] have neg: "?inc < 0" .
    from scan_down [OF "1.prems" down] show ?thesis using neg by auto
  qed
  show ?case
  proof (cases ?valid)
    case True
    have same: "edge_bound ?n ?r ?c d = ?e"
      using True by (intro edge_bound_step) auto
    have "py_range (?r * ?n + ?c + ?inc)
            (if ?inc \<le> 0 then edge_bound ?n ?r ?c d - 1 else edge_bound ?n ?r ?c d + 1) ?inc
          = spec_ray_from ?n ?r ?c d"
      using "1.hyps" [OF True] "1.prems"(1) True by simp
    then have ih: "py_range (?r * ?n + ?c + ?inc) ?stop ?inc = spec_ray_from ?n ?r ?c d"
      by (simp only: same)
    from cond True have go: "(0 < ?inc \<and> r * ?n + c + ?inc < ?stop)
        \<or> (?inc < 0 \<and> ?stop < r * ?n + c + ?inc)"
      unfolding start by blast
    have "py_range (r * ?n + c + ?inc) ?stop ?inc
        = (r * ?n + c + ?inc) # py_range (r * ?n + c + ?inc + ?inc) ?stop ?inc"
      by (subst py_range.simps) (simp only: go if_True)
    also have "\<dots> = (?r * ?n + ?c) # py_range (?r * ?n + ?c + ?inc) ?stop ?inc"
      by (simp only: start)
    also have "\<dots> = (?r * ?n + ?c) # spec_ray_from ?n ?r ?c d"
      by (simp only: ih)
    also have "\<dots> = spec_ray_from ?n r c d"
      by (subst (2) spec_ray_from.simps) (use True in simp)
    finally show ?thesis .
  next
    case False
    from cond False have stop: "\<not> ((0 < ?inc \<and> r * ?n + c + ?inc < ?stop)
        \<or> (?inc < 0 \<and> ?stop < r * ?n + c + ?inc))"
      unfolding start by blast
    have "py_range (r * ?n + c + ?inc) ?stop ?inc = []"
      by (subst py_range.simps) (simp only: stop if_False)
    also have "\<dots> = spec_ray_from ?n r c d"
      by (subst spec_ray_from.simps) (use False in simp)
    finally show ?thesis .
  qed
qed

lemma py_range_within:
  "x \<in> set (py_range a stop inc) \<Longrightarrow>
   (0 < inc \<longrightarrow> a \<le> x \<and> x < stop) \<and> (inc < 0 \<longrightarrow> stop < x \<and> x \<le> a)"
proof (induction a stop inc rule: py_range.induct)
  case (1 start stop step)
  show ?case
  proof (cases "(0 < step \<and> start < stop) \<or> (step < 0 \<and> stop < start)")
    case True
    then have "py_range start stop step = start # py_range (start + step) stop step"
      by (subst py_range.simps) simp
    with "1.prems" have "x = start \<or> x \<in> set (py_range (start + step) stop step)" by simp
    then show ?thesis
    proof
      assume "x = start" with True show ?thesis by auto
    next
      assume "x \<in> set (py_range (start + step) stop step)"
      from "1.IH" [OF True this] show ?thesis by auto
    qed
  next
    case False
    then have "py_range start stop step = []" by (subst py_range.simps) simp
    with "1.prems" show ?thesis by simp
  qed
qed

lemma edge_bound_on_board:
  fixes n r c :: int
  assumes "2 \<le> n" "0 \<le> r" "r < n" "0 \<le> c" "c < n"
  shows "0 \<le> edge_bound n r c d" "edge_bound n r c d < n\<^sup>2"
    "d \<in> {North, East, Northeast, Northwest} \<Longrightarrow> r * n + c \<le> edge_bound n r c d"
    "d \<in> {South, West, Southeast, Southwest} \<Longrightarrow> edge_bound n r c d \<le> r * n + c"
proof -
  have p: "0 \<le> r * n" "0 \<le> c * n" "c \<le> c * n"
    using assms by (simp_all add: mult_le_cancel_left1)
  have ex: "(n - 1 - c) * n = n * n - n - c * n"
    by (simp add: algebra_simps)
  have cn: "c * n \<le> n * n - n"
    using mult_right_mono [of c "n - 1" n] assms by (simp add: algebra_simps)
  have q: "r * n + (n - 1) < n * n"
    using idx_in_board(2) [of n r "n - 1"] assms by (simp add: power2_eq_square)
  have s: "r * n + c < n * n"
    using idx_in_board(2) [of n r c] assms by (simp add: power2_eq_square)
  have sq: "0 < n * n" using assms by simp
  have cn2: "c * n - c \<le> n * n - 2 * n + 1"
    using mult_right_mono [of c "n - 1" "n - 1"] assms by (simp add: algebra_simps)
  note facts = p cn cn2 q s sq assms
  show "0 \<le> edge_bound n r c d"
    using facts by (cases d; simp only: edge_bound.simps ex; linarith)
  show "edge_bound n r c d < n\<^sup>2"
    using facts unfolding power2_eq_square
    by (cases d; simp only: edge_bound.simps ex; linarith)
  show "r * n + c \<le> edge_bound n r c d" if up: "d \<in> {North, East, Northeast, Northwest}"
  proof -
    consider "d = North" | "d = East" | "d = Northeast" | "d = Northwest" using up by auto
    then show ?thesis
    proof cases
      case 1
      show ?thesis using facts unfolding 1 edge_bound.simps ex by linarith
    next
      case 2
      show ?thesis using facts unfolding 2 edge_bound.simps ex by linarith
    next
      case 3
      show ?thesis using facts unfolding 3 edge_bound.simps ex by linarith
    next
      case 4
      show ?thesis using facts unfolding 4 edge_bound.simps ex by linarith
    qed
  qed
  show "edge_bound n r c d \<le> r * n + c" if down: "d \<in> {South, West, Southeast, Southwest}"
  proof -
    consider "d = South" | "d = West" | "d = Southeast" | "d = Southwest" using down by auto
    then show ?thesis
    proof cases
      case 1
      show ?thesis using facts unfolding 1 edge_bound.simps ex by linarith
    next
      case 2
      show ?thesis using facts unfolding 2 edge_bound.simps ex by linarith
    next
      case 3
      show ?thesis using facts unfolding 3 edge_bound.simps ex by linarith
    next
      case 4
      show ?thesis using facts unfolding 4 edge_bound.simps ex by linarith
    qed
  qed
qed

lemma east_west_last:
  fixes n r c :: int
  assumes "0 \<le> c" "c < n" "0 \<le> r" "r < n"
  shows "last ((r * n + c) # spec_ray_from n r c East) = r * n + (n - 1)"
    and "last ((r * n + c) # spec_ray_from n r c West) = r * n"
proof -
  show "last ((r * n + c) # spec_ray_from n r c East) = r * n + (n - 1)"
    using assms
  proof (induction "nat (n - c)" arbitrary: c rule: less_induct)
    case less
    show ?case
    proof (cases "c + 1 < n")
      case True
      have "spec_ray_from n r c East = (r * n + (c + 1)) # spec_ray_from n r (c + 1) East"
        using True less.prems by (subst spec_ray_from.simps) simp
      moreover have "last ((r * n + (c + 1)) # spec_ray_from n r (c + 1) East) = r * n + (n - 1)"
        using True less.prems by (intro less.hyps) auto
      ultimately show ?thesis by simp
    next
      case False
      then have "spec_ray_from n r c East = []" by (subst spec_ray_from.simps) simp
      with False less.prems show ?thesis by simp
    qed
  qed
  show "last ((r * n + c) # spec_ray_from n r c West) = r * n"
    using assms
  proof (induction "nat c" arbitrary: c rule: less_induct)
    case less
    show ?case
    proof (cases "0 \<le> c - 1")
      case True
      have "spec_ray_from n r c West = (r * n + (c - 1)) # spec_ray_from n r (c - 1) West"
        using True less.prems by (subst spec_ray_from.simps) simp
      moreover have "last ((r * n + (c - 1)) # spec_ray_from n r (c - 1) West) = r * n"
        using True less.prems by (intro less.hyps) auto
      ultimately show ?thesis by simp
    next
      case False
      then have "spec_ray_from n r c West = []" by (subst spec_ray_from.simps) simp
      with False less.prems show ?thesis by simp
    qed
  qed
qed

text \<open>
  Claim C4, as amended. For a location on a board of side at least 2, \<open>set_max_min\<close>
  returns an index of the board that bounds the scan: the locations
  \<open>location + inc, location + 2 * inc, ...\<close> up to and including the bound are exactly
  the cells reachable from the location by valid steps in the direction, and the
  furthest reachable cell lies between the location and the bound. For east and west the
  bound is the furthest reachable cell (the end and the start of the row). For north it
  is the last index of the board and for south it is 0, whatever the column. For a
  diagonal it is the cell in the last (east) or first (west) column that the diagonal
  would meet, \<open>n - 1 - column\<close> or \<open>column\<close> rows away, replaced by the last index of
  the board when it lies above it and by 0 when it lies below.
\<close>

theorem set_max_min_bounds_scan:
  assumes "2 \<le> board_n b" "0 \<le> location" "location < (board_n b)\<^sup>2"
  shows "\<exists>e. set_max_min b location d = Inr e
      \<and> 0 \<le> e \<and> e < (board_n b)\<^sup>2
      \<and> py_range (location + set_increment b d)
            (if set_increment b d \<le> 0 then e - 1 else e + 1) (set_increment b d)
          = spec_ray b location d
      \<and> (0 < set_increment b d \<longrightarrow> last (location # spec_ray b location d) \<le> e)
      \<and> (set_increment b d < 0 \<longrightarrow> e \<le> last (location # spec_ray b location d))
      \<and> (d = East \<or> d = West \<longrightarrow> e = last (location # spec_ray b location d))
      \<and> (d = East \<longrightarrow> e = (location div board_n b) * board_n b + (board_n b - 1))
      \<and> (d = West \<longrightarrow> e = (location div board_n b) * board_n b)
      \<and> (d = North \<longrightarrow> e = (board_n b)\<^sup>2 - 1)
      \<and> (d = South \<longrightarrow> e = 0)
      \<and> (d = Northeast \<longrightarrow>
            e = min ((board_n b)\<^sup>2 - 1)
                  ((location div board_n b + (board_n b - 1 - location mod board_n b))
                      * board_n b + (board_n b - 1)))
      \<and> (d = Southeast \<longrightarrow>
            e = max 0
                  ((location div board_n b - (board_n b - 1 - location mod board_n b))
                      * board_n b + (board_n b - 1)))
      \<and> (d = Northwest \<longrightarrow>
            e = min ((board_n b)\<^sup>2 - 1)
                  ((location div board_n b + location mod board_n b) * board_n b))
      \<and> (d = Southwest \<longrightarrow>
            e = max 0 ((location div board_n b - location mod board_n b) * board_n b))"
proof -
  let ?n = "board_n b"
  let ?r = "location div ?n" and ?c = "location mod ?n"
  let ?e = "edge_bound ?n ?r ?c d"
  let ?inc = "set_increment b d"
  have n: "0 < ?n" using assms(1) by simp
  have rc: "0 \<le> ?r" "?r < ?n" "0 \<le> ?c" "?c < ?n" and loc: "?r * ?n + ?c = location"
    using loc_row_col [OF n assms(2,3)] by blast+
  have smm: "set_max_min b location d = Inr ?e"
    using set_max_min_rc [OF n rc, of d] by (simp only: loc)
  have on: "0 \<le> ?e" "?e < ?n\<^sup>2"
    using edge_bound_on_board(1,2) [OF assms(1) rc] by blast+
  have rng: "py_range (location + ?inc) (if ?inc \<le> 0 then ?e - 1 else ?e + 1) ?inc
      = spec_ray b location d"
    using scan_range [OF assms(1) rc, of d] by (simp only: loc spec_ray_def)
  have up: "0 < ?inc \<longrightarrow> last (location # spec_ray b location d) \<le> ?e"
  proof
    assume pos: "0 < ?inc"
    show "last (location # spec_ray b location d) \<le> ?e"
    proof (cases "spec_ray b location d = []")
      case True
      from pos have "d \<in> {North, East, Northeast, Northwest}"
        using assms(1) by (cases d) auto
      from edge_bound_on_board(3) [OF assms(1) rc this] show ?thesis
        using True by (simp add: loc)
    next
      case False
      then have "last (spec_ray b location d)
          \<in> set (py_range (location + ?inc) (?e + 1) ?inc)"
        using rng pos by simp
      from py_range_within [OF this] pos False show ?thesis by simp
    qed
  qed
  have down: "?inc < 0 \<longrightarrow> ?e \<le> last (location # spec_ray b location d)"
  proof
    assume neg: "?inc < 0"
    show "?e \<le> last (location # spec_ray b location d)"
    proof (cases "spec_ray b location d = []")
      case True
      from neg have "d \<in> {South, West, Southeast, Southwest}"
        using assms(1) by (cases d) auto
      from edge_bound_on_board(4) [OF assms(1) rc this] show ?thesis
        using True by (simp add: loc)
    next
      case False
      then have "last (spec_ray b location d)
          \<in> set (py_range (location + ?inc) (?e - 1) ?inc)"
        using rng neg by simp
      from py_range_within [OF this] neg False show ?thesis by simp
    qed
  qed
  have ew: "d = East \<or> d = West \<longrightarrow> ?e = last (location # spec_ray b location d)"
    using east_west_last [OF rc(3,4,1,2)] by (auto simp: spec_ray_def loc)
  have e: "d = East \<longrightarrow> ?e = ?r * ?n + (?n - 1)" by simp
  have w: "d = West \<longrightarrow> ?e = ?r * ?n" by simp
  have no: "d = North \<longrightarrow> ?e = ?n\<^sup>2 - 1" by (simp add: power2_eq_square)
  have so: "d = South \<longrightarrow> ?e = 0" by simp
  have ne: "d = Northeast \<longrightarrow> ?e = min (?n\<^sup>2 - 1) ((?r + (?n - 1 - ?c)) * ?n + (?n - 1))"
    by (simp add: power2_eq_square algebra_simps)
  have se: "d = Southeast \<longrightarrow> ?e = max 0 ((?r - (?n - 1 - ?c)) * ?n + (?n - 1))"
    by (simp add: algebra_simps)
  have nw: "d = Northwest \<longrightarrow> ?e = min (?n\<^sup>2 - 1) ((?r + ?c) * ?n)"
    by (simp add: power2_eq_square algebra_simps)
  have sw: "d = Southwest \<longrightarrow> ?e = max 0 ((?r - ?c) * ?n)"
    by (simp add: algebra_simps)
  show ?thesis
    by (intro exI [of _ ?e] conjI smm on rng up down ew e w no so ne se nw sw)
qed

lemma spec_ray_board4_north: "spec_ray board4 0 North = [4, 8, 12]"
  by (simp add: spec_ray_def board4_def spec_ray_from.simps)

theorem set_max_min_north_counterexample:
  "set_max_min board4 0 North = Inr 15 \<and> last (0 # spec_ray board4 0 North) = 12
   \<and> set_max_min board4 0 North \<noteq> Inr (last (0 # spec_ray board4 0 North))"
  by (simp add: spec_ray_board4_north) (simp add: set_max_min_def board4_def)

lemma spec_ray_board4_diagonals:
  "spec_ray board4 4 Northeast = [9, 14]" "spec_ray board4 5 Southeast = [2]"
  "spec_ray board4 1 Northeast = [6, 11]"
  by (simp_all add: spec_ray_def board4_def spec_ray_from.simps)

theorem set_max_min_bounds_scan_witness:
  "set_max_min board4 0 North = Inr 15
   \<and> py_range (0 + set_increment board4 North) (15 + 1) (set_increment board4 North)
       = spec_ray board4 0 North
   \<and> last (0 # spec_ray board4 0 North) \<le> 15
   \<and> set_max_min board4 4 Northeast = Inr 15
   \<and> py_range (4 + set_increment board4 Northeast) (15 + 1) (set_increment board4 Northeast)
       = [9, 14]
   \<and> set_max_min board4 1 Northeast = Inr 11
   \<and> set_max_min board4 5 Southeast = Inr 0
   \<and> py_range (5 + set_increment board4 Southeast) (0 - 1) (set_increment board4 Southeast)
       = [2]"
proof -
  have h: "2 \<le> board_n board4" "(0::int) \<le> 0" "0 < (board_n board4)\<^sup>2"
    and h4: "(0::int) \<le> 4" "4 < (board_n board4)\<^sup>2"
    and h1: "(0::int) \<le> 1" "1 < (board_n board4)\<^sup>2"
    and h5: "(0::int) \<le> 5" "5 < (board_n board4)\<^sup>2"
    by (simp_all add: board4_def)
  have n4: "board_n board4 = 4" by (simp add: board4_def)
  from set_max_min_bounds_scan [OF h, of North] obtain e where
    e: "set_max_min board4 0 North = Inr e"
      "py_range (0 + set_increment board4 North)
            (if set_increment board4 North \<le> 0 then e - 1 else e + 1)
            (set_increment board4 North)
          = spec_ray board4 0 North"
      "0 < set_increment board4 North \<longrightarrow> last (0 # spec_ray board4 0 North) \<le> e"
      "North = North \<longrightarrow> e = (board_n board4)\<^sup>2 - 1"
    by blast
  from e(4) have e15: "e = 15" by (simp add: n4)
  have north: "set_max_min board4 0 North = Inr 15
     \<and> py_range (0 + set_increment board4 North) (15 + 1) (set_increment board4 North)
         = spec_ray board4 0 North
     \<and> last (0 # spec_ray board4 0 North) \<le> 15"
    using e(1,2,3) e15 by (simp add: n4)
  from set_max_min_bounds_scan [OF h(1) h4, of Northeast] obtain f where
    f: "set_max_min board4 4 Northeast = Inr f"
      "py_range (4 + set_increment board4 Northeast)
            (if set_increment board4 Northeast \<le> 0 then f - 1 else f + 1)
            (set_increment board4 Northeast)
          = spec_ray board4 4 Northeast"
      "Northeast = Northeast \<longrightarrow>
            f = min ((board_n board4)\<^sup>2 - 1)
                  ((4 div board_n board4 + (board_n board4 - 1 - 4 mod board_n board4))
                      * board_n board4 + (board_n board4 - 1))"
    by blast
  from f(3) have f15: "f = 15" by (simp add: n4)
  have northeast: "set_max_min board4 4 Northeast = Inr 15
     \<and> py_range (4 + set_increment board4 Northeast) (15 + 1)
          (set_increment board4 Northeast) = [9, 14]"
    using f(1,2) f15 by (simp add: n4 spec_ray_board4_diagonals)
  from set_max_min_bounds_scan [OF h(1) h1, of Northeast] obtain g where
    g: "set_max_min board4 1 Northeast = Inr g"
      "Northeast = Northeast \<longrightarrow>
            g = min ((board_n board4)\<^sup>2 - 1)
                  ((1 div board_n board4 + (board_n board4 - 1 - 1 mod board_n board4))
                      * board_n board4 + (board_n board4 - 1))"
    by blast
  from g(2) have "g = 11" by (simp add: n4)
  with g(1) have inner: "set_max_min board4 1 Northeast = Inr 11" by simp
  from set_max_min_bounds_scan [OF h(1) h5, of Southeast] obtain k where
    k: "set_max_min board4 5 Southeast = Inr k"
      "py_range (5 + set_increment board4 Southeast)
            (if set_increment board4 Southeast \<le> 0 then k - 1 else k + 1)
            (set_increment board4 Southeast)
          = spec_ray board4 5 Southeast"
      "Southeast = Southeast \<longrightarrow>
            k = max 0
                  ((5 div board_n board4 - (board_n board4 - 1 - 5 mod board_n board4))
                      * board_n board4 + (board_n board4 - 1))"
    by blast
  from k(3) have k0: "k = 0" by (simp add: n4)
  have southeast: "set_max_min board4 5 Southeast = Inr 0
     \<and> py_range (5 + set_increment board4 Southeast) (0 - 1)
          (set_increment board4 Southeast) = [2]"
    using k(1,2) k0 by (simp add: n4 spec_ray_board4_diagonals)
  show ?thesis
    using north northeast inner southeast by blast
qed

subsection \<open>Captures in one direction\<close>

lemma spec_ray_from_on_board:
  "i \<in> set (spec_ray_from n r c d) \<Longrightarrow> 0 < n \<Longrightarrow> 0 \<le> i \<and> i < n\<^sup>2"
proof (induction n r c d rule: spec_ray_from.induct)
  case (1 n r c d)
  let ?r = "r + row_step d" and ?c = "c + col_step d"
  show ?case
  proof (cases "0 \<le> ?r \<and> ?r < n \<and> 0 \<le> ?c \<and> ?c < n")
    case True
    then have "spec_ray_from n r c d = (?r * n + ?c) # spec_ray_from n ?r ?c d"
      by (subst spec_ray_from.simps) simp
    with "1.prems"(1) have "i = ?r * n + ?c \<or> i \<in> set (spec_ray_from n ?r ?c d)" by simp
    then show ?thesis
    proof
      assume "i = ?r * n + ?c"
      then show ?thesis using idx_in_board [of n ?r ?c] True "1.prems"(2) by simp
    next
      assume "i \<in> set (spec_ray_from n ?r ?c d)"
      from "1.IH" [OF True this "1.prems"(2)] show ?thesis .
    qed
  next
    case False
    then have "spec_ray_from n r c d = []" by (subst spec_ray_from.simps) simp
    with "1.prems"(1) show ?thesis by simp
  qed
qed

lemma capture_loop_spec:
  assumes "\<forall>i \<in> set locs. 0 \<le> i \<and> i < int (length ps)" "\<forall>p \<in> set acc. p_color p \<noteq> t"
  shows "\<exists>r. capture_loop ps t locs acc = Inr r
      \<and> final_test t r =
          (if own_terminated t (map (\<lambda>i. ps ! nat i) locs)
           then acc @ opponent_run t (map (\<lambda>i. ps ! nat i) locs) else [])"
  using assms
proof (induction locs arbitrary: acc)
  case Nil
  then show ?case by (cases acc rule: rev_cases) (auto simp: final_test_def)
next
  case (Cons loc locs)
  then have idx: "py_index ps loc = Inr (ps ! nat loc)" by (simp add: py_index_def)
  show ?case
  proof (cases "ps ! nat loc")
    case None
    then show ?thesis using idx by (simp add: final_test_def)
  next
    case (Some piece)
    show ?thesis
    proof (cases "p_color piece = t")
      case True
      then show ?thesis using idx Some by (simp add: final_test_def)
    next
      case False
      have "\<forall>p \<in> set (acc @ [piece]). p_color p \<noteq> t" using Cons.prems(2) False by simp
      from Cons.IH [OF _ this] Cons.prems(1) show ?thesis using idx Some False by auto
    qed
  qed
qed

lemma own_terminated_iff:
  "own_terminated t cells \<longleftrightarrow>
     (\<exists>k < length cells. (\<exists>p. cells ! k = Some p \<and> p_color p = t)
        \<and> (\<forall>j < k. \<exists>q. cells ! j = Some q \<and> p_color q \<noteq> t))"
proof (induction t cells rule: own_terminated.induct)
  case (1 t)
  then show ?case by simp
next
  case (2 t cells)
  show ?case
  proof
    assume "own_terminated t (None # cells)" then show "\<exists>k < length (None # cells).
      (\<exists>p. (None # cells) ! k = Some p \<and> p_color p = t)
        \<and> (\<forall>j < k. \<exists>q. (None # cells) ! j = Some q \<and> p_color q \<noteq> t)" by simp
  next
    assume "\<exists>k < length (None # cells).
      (\<exists>p. (None # cells) ! k = Some p \<and> p_color p = t)
        \<and> (\<forall>j < k. \<exists>q. (None # cells) ! j = Some q \<and> p_color q \<noteq> t)"
    then obtain k where k: "\<exists>p. (None # cells) ! k = Some p \<and> p_color p = t"
      "\<forall>j < k. \<exists>q. (None # cells) ! j = Some q \<and> p_color q \<noteq> t" by blast
    then have "k = 0 \<or> 0 < k" by auto
    then show "own_terminated t (None # cells)" using k by auto
  qed
next
  case (3 t p cells)
  show ?case
  proof (cases "p_color p = t")
    case True
    then have "own_terminated t (Some p # cells)" by simp
    moreover have "\<exists>k < length (Some p # cells).
      (\<exists>pa. (Some p # cells) ! k = Some pa \<and> p_color pa = t)
        \<and> (\<forall>j < k. \<exists>q. (Some p # cells) ! j = Some q \<and> p_color q \<noteq> t)"
      using True by (intro exI [of _ 0]) simp
    ultimately show ?thesis by blast
  next
    case False
    have "(\<exists>k < length (Some p # cells).
      (\<exists>pa. (Some p # cells) ! k = Some pa \<and> p_color pa = t)
        \<and> (\<forall>j < k. \<exists>q. (Some p # cells) ! j = Some q \<and> p_color q \<noteq> t))
      \<longleftrightarrow> (\<exists>k < length cells. (\<exists>pa. cells ! k = Some pa \<and> p_color pa = t)
        \<and> (\<forall>j < k. \<exists>q. cells ! j = Some q \<and> p_color q \<noteq> t))" (is "?L \<longleftrightarrow> ?R")
    proof
      assume ?L
      then obtain k where k: "k < length (Some p # cells)"
        "\<exists>pa. (Some p # cells) ! k = Some pa \<and> p_color pa = t"
        "\<forall>j < k. \<exists>q. (Some p # cells) ! j = Some q \<and> p_color q \<noteq> t" by blast
      from k(2) False obtain k' where k': "k = Suc k'" by (cases k) auto
      have "\<forall>j < k'. \<exists>q. cells ! j = Some q \<and> p_color q \<noteq> t"
      proof (intro allI impI)
        fix j assume "j < k'"
        then have "Suc j < k" using k' by simp
        with k(3) show "\<exists>q. cells ! j = Some q \<and> p_color q \<noteq> t" by fastforce
      qed
      with k(1,2) k' show ?R by (intro exI [of _ k']) simp
    next
      assume ?R
      then obtain k where k: "k < length cells"
        "\<exists>pa. cells ! k = Some pa \<and> p_color pa = t"
        "\<forall>j < k. \<exists>q. cells ! j = Some q \<and> p_color q \<noteq> t" by blast
      have "\<forall>j < Suc k. \<exists>q. (Some p # cells) ! j = Some q \<and> p_color q \<noteq> t"
        using k(3) False by (auto simp: nth_Cons split: nat.splits)
      with k(1,2) show ?L by (intro exI [of _ "Suc k"]) simp
    qed
    with "3.IH" False show ?thesis by simp
  qed
qed

lemma opponent_run_takeWhile:
  "opponent_run t cells
     = map the (takeWhile (\<lambda>cell. \<exists>q. cell = Some q \<and> p_color q \<noteq> t) cells)"
  by (induction t cells rule: opponent_run.induct) auto

lemma opponent_run_colors: "p \<in> set (opponent_run t cells) \<Longrightarrow> p_color p \<noteq> t"
  by (induction t cells rule: opponent_run.induct) (auto split: if_splits)

lemma can_capture_in_direction_eq:
  assumes "2 \<le> board_n b" "0 \<le> location" "location < (board_n b)\<^sup>2"
    "int (length (pieces b)) = (board_n b)\<^sup>2"
  shows "can_capture_in_direction b location d = Inr (spec_captures b location d)"
proof -
  let ?n = "board_n b"
  let ?r = "location div ?n" and ?c = "location mod ?n"
  let ?e = "edge_bound ?n ?r ?c d"
  let ?inc = "set_increment b d"
  have n: "0 < ?n" using assms(1) by simp
  have rc: "0 \<le> ?r" "?r < ?n" "0 \<le> ?c" "?c < ?n" and loc: "?r * ?n + ?c = location"
    using loc_row_col [OF n assms(2,3)] by blast+
  have smm: "set_max_min b location d = Inr ?e"
    using set_max_min_rc [OF n rc, of d] by (simp only: loc)
  have rng: "py_range (location + ?inc) (if ?inc \<le> 0 then ?e - 1 else ?e + 1) ?inc
      = spec_ray b location d"
    using scan_range [OF assms(1) rc, of d] by (simp only: loc spec_ray_def)
  have nz: "?inc \<noteq> 0"
    using increment_sign [OF assms(1), of d] up_or_down [of d] by auto
  have onb: "\<forall>i \<in> set (spec_ray b location d). 0 \<le> i \<and> i < int (length (pieces b))"
  proof
    fix i assume "i \<in> set (spec_ray b location d)"
    then have "i \<in> set (spec_ray_from ?n ?r ?c d)" by (simp only: spec_ray_def)
    from spec_ray_from_on_board [OF this n] show "0 \<le> i \<and> i < int (length (pieces b))"
      by (simp only: assms(4))
  qed
  have acc: "\<forall>p \<in> set []. p_color p \<noteq> turn b" by simp
  from capture_loop_spec [OF onb acc] obtain r where
    r: "capture_loop (pieces b) (turn b) (spec_ray b location d) [] = Inr r"
      "final_test (turn b) r =
          (if own_terminated (turn b) (map (\<lambda>i. pieces b ! nat i) (spec_ray b location d))
           then [] @ opponent_run (turn b) (map (\<lambda>i. pieces b ! nat i) (spec_ray b location d))
           else [])"
    by blast
  have r2: "final_test (turn b) r = spec_captures b location d"
    unfolding r(2) spec_captures_def spec_cells_def by simp
  have rangeok: "\<not> \<not> (0 \<le> location \<and> location < (board_n b)\<^sup>2)" using assms(2,3) by simp
  have "can_capture_in_direction b location d
      = and_then (capture_loop (pieces b) (turn b)
          (py_range (location + ?inc) (if ?inc \<le> 0 then ?e - 1 else ?e + 1) ?inc) [])
          (\<lambda>r. Inr (final_test (turn b) r))"
    unfolding can_capture_in_direction_def Let_def smm final_test_def
    using assms(2,3) nz
    by (auto simp: and_then_def split: option.splits sum.splits)
  also have "\<dots> = and_then (Inr r) (\<lambda>r. Inr (final_test (turn b) r))"
    by (simp only: rng r(1))
  finally have "can_capture_in_direction b location d = Inr (final_test (turn b) r)"
    by (simp add: and_then_def)
  with r2 show ?thesis by simp
qed

lemma spec_ray_first:
  assumes "spec_ray b location d \<noteq> []"
  shows "hd (spec_ray b location d) = location + set_increment b d"
proof -
  let ?n = "board_n b"
  let ?r = "location div ?n" and ?c = "location mod ?n"
  let ?valid = "0 \<le> ?r + row_step d \<and> ?r + row_step d < ?n
      \<and> 0 \<le> ?c + col_step d \<and> ?c + col_step d < ?n"
  have unfolded: "spec_ray_from ?n ?r ?c d =
      (if ?valid
       then ((?r + row_step d) * ?n + (?c + col_step d))
              # spec_ray_from ?n (?r + row_step d) (?c + col_step d) d
       else [])"
    by (rule spec_ray_from.simps)
  have ?valid
  proof (rule ccontr)
    assume "\<not> ?valid"
    with unfolded have "spec_ray_from ?n ?r ?c d = []" by (simp only: if_False)
    with assms show False by (simp add: spec_ray_def)
  qed
  with unfolded have "hd (spec_ray b location d) = (?r + row_step d) * ?n + (?c + col_step d)"
    by (simp add: spec_ray_def)
  also have "\<dots> = ?r * ?n + ?c + set_increment b d"
    by (rule step_index [symmetric])
  finally show ?thesis by simp
qed

text \<open>
  Claim C1. On a board of side at least 2 whose list of pieces has one entry per square,
  and for an in-range location, \<open>can_capture_in_direction\<close> returns the captures of the
  specification: the run of opponent tiles that starts one step from the location, when
  that run is followed at once, on the board, by a tile of the mover's own colour, and
  the empty list otherwise. So the result is non-empty exactly when the run is non-empty
  and terminated by an own tile; it is empty when the neighbouring cell is off the board
  or empty, and when the scan meets the edge or an empty cell before an own tile; and no
  tile of the mover's own colour is in the result.
\<close>

theorem can_capture_in_direction_correct:
  assumes "2 \<le> board_n b" "0 \<le> location" "location < (board_n b)\<^sup>2"
    "int (length (pieces b)) = (board_n b)\<^sup>2"
  shows "can_capture_in_direction b location d = Inr (spec_captures b location d)
    \<and> (can_capture_in_direction b location d \<noteq> Inr [] \<longleftrightarrow>
         opponent_run (turn b) (spec_cells b location d) \<noteq> []
         \<and> own_terminated (turn b) (spec_cells b location d))
    \<and> (spec_ray b location d = [] \<longrightarrow> can_capture_in_direction b location d = Inr [])
    \<and> (spec_ray b location d \<noteq> [] \<longrightarrow>
         hd (spec_ray b location d) = location + set_increment b d)
    \<and> (spec_ray b location d \<noteq> [] \<and> pieces b ! nat (location + set_increment b d) = None
         \<longrightarrow> can_capture_in_direction b location d = Inr [])
    \<and> (\<not> (\<exists>k < length (spec_cells b location d).
            (\<exists>p. spec_cells b location d ! k = Some p \<and> p_color p = turn b)
            \<and> (\<forall>j < k. \<exists>q. spec_cells b location d ! j = Some q \<and> p_color q \<noteq> turn b))
         \<longrightarrow> can_capture_in_direction b location d = Inr [])
    \<and> opponent_run (turn b) (spec_cells b location d)
         = map the (takeWhile (\<lambda>cell. \<exists>q. cell = Some q \<and> p_color q \<noteq> turn b)
             (spec_cells b location d))
    \<and> (\<forall>p \<in> set (spec_captures b location d). p_color p \<noteq> turn b)"
proof -
  let ?cells = "spec_cells b location d"
  have eq: "can_capture_in_direction b location d = Inr (spec_captures b location d)"
    by (rule can_capture_in_direction_eq [OF assms])
  have nonempty: "can_capture_in_direction b location d \<noteq> Inr [] \<longleftrightarrow>
      opponent_run (turn b) ?cells \<noteq> [] \<and> own_terminated (turn b) ?cells"
    unfolding eq by (auto simp: spec_captures_def)
  have off: "can_capture_in_direction b location d = Inr []" if "spec_ray b location d = []"
    unfolding eq using that by (simp add: spec_captures_def spec_cells_def)
  have first: "hd (spec_ray b location d) = location + set_increment b d"
    if "spec_ray b location d \<noteq> []"
    using that by (rule spec_ray_first)
  have empty: "can_capture_in_direction b location d = Inr []"
    if ne: "spec_ray b location d \<noteq> []"
      and none: "pieces b ! nat (location + set_increment b d) = None"
  proof -
    from ne obtain i rest where ray: "spec_ray b location d = i # rest"
      by (cases "spec_ray b location d") auto
    with first [OF ne] have "i = location + set_increment b d" by simp
    with ray none have "?cells = None # map (\<lambda>i. pieces b ! nat i) rest"
      by (simp add: spec_cells_def)
    then show ?thesis unfolding eq by (simp add: spec_captures_def)
  qed
  have unterminated: "can_capture_in_direction b location d = Inr []"
    if "\<not> (\<exists>k < length ?cells.
            (\<exists>p. ?cells ! k = Some p \<and> p_color p = turn b)
            \<and> (\<forall>j < k. \<exists>q. ?cells ! j = Some q \<and> p_color q \<noteq> turn b))"
  proof -
    from that have "\<not> own_terminated (turn b) ?cells"
      by (simp only: own_terminated_iff not_False_eq_True)
    then show ?thesis unfolding eq by (simp add: spec_captures_def)
  qed
  have run: "opponent_run (turn b) ?cells
         = map the (takeWhile (\<lambda>cell. \<exists>q. cell = Some q \<and> p_color q \<noteq> turn b) ?cells)"
    by (rule opponent_run_takeWhile)
  have own: "\<forall>p \<in> set (spec_captures b location d). p_color p \<noteq> turn b"
    using opponent_run_colors by (auto simp: spec_captures_def)
  show ?thesis
    using eq nonempty off first empty unterminated run own by blast
qed

lemma spec_captures_board4:
  "spec_captures board4 1 North = [\<lparr>p_location = 5, p_color = White, p_x = - 25, p_y = - 25\<rparr>]"
  "spec_captures board4 0 North = []"
  "spec_ray board4 3 East = []"
  by (simp_all add: spec_captures_def spec_cells_def spec_ray_def board4_def spec_ray_from.simps)

theorem can_capture_in_direction_correct_witness:
  "can_capture_in_direction board4 1 North
     = Inr [\<lparr>p_location = 5, p_color = White, p_x = - 25, p_y = - 25\<rparr>]
   \<and> can_capture_in_direction board4 0 North = Inr []
   \<and> can_capture_in_direction board4 3 East = Inr []"
proof -
  have h: "2 \<le> board_n board4" "int (length (pieces board4)) = (board_n board4)\<^sup>2"
    "(0::int) \<le> 1 \<and> 1 < (board_n board4)\<^sup>2" "(0::int) \<le> 0 \<and> 0 < (board_n board4)\<^sup>2"
    "(0::int) \<le> 3 \<and> 3 < (board_n board4)\<^sup>2"
    by (simp_all add: board4_def)
  have "can_capture_in_direction board4 1 North = Inr (spec_captures board4 1 North)"
    using can_capture_in_direction_correct [of board4 1 North] h by blast
  moreover have "can_capture_in_direction board4 0 North = Inr (spec_captures board4 0 North)"
    using can_capture_in_direction_correct [of board4 0 North] h by blast
  moreover have "spec_ray board4 3 East = [] \<longrightarrow> can_capture_in_direction board4 3 East = Inr []"
    using can_capture_in_direction_correct [of board4 3 East] h by blast
  ultimately show ?thesis by (simp add: spec_captures_board4)
qed

subsection \<open>Squares and counters\<close>

lemma init_row_locations:
  "map sq_location (init_row k index x0 y0) = map (\<lambda>j. index + int j) [0..<k]"
proof (induction k arbitrary: index x0)
  case 0
  then show ?case by simp
next
  case (Suc k)
  have "map (\<lambda>j. index + int j) [0..<Suc k]
      = index # map (\<lambda>j. index + 1 + int j) [0..<k]"
    by (simp add: map_upt_Suc del: upt_Suc)
  with Suc.IH [of "index + 1"] show ?case by simp
qed

lemma shift_upt:
  "map (\<lambda>j. a + int j) [c..<c + m] = map (\<lambda>j. a + int c + int j) [0..<m]"
proof -
  have "map (\<lambda>j. a + int c + int j) [0..<m] = map (\<lambda>j. a + int j) (map (\<lambda>j. j + c) [0..<m])"
    by (simp add: o_def)
  also have "map (\<lambda>j. j + c) [0..<m] = [c..<c + m]"
    using map_add_upt [of c m] by (simp add: add.commute)
  finally show ?thesis by simp
qed

lemma init_rows_locations:
  "map sq_location (init_rows k cols index corner y0)
     = map (\<lambda>j. index + int j) [0..<k * cols]"
proof (induction k arbitrary: index y0)
  case 0
  then show ?case by simp
next
  case (Suc k)
  have split: "[0..<Suc k * cols] = [0..<cols] @ [cols..<cols + k * cols]"
    using upt_add_eq_append [of 0 cols "k * cols"] by simp
  have "map sq_location (init_rows (Suc k) cols index corner y0)
      = map (\<lambda>j. index + int j) [0..<cols]
        @ map (\<lambda>j. index + int cols + int j) [0..<k * cols]"
    using Suc.IH [of "index + int cols"] by (simp add: init_row_locations)
  also have "\<dots> = map (\<lambda>j. index + int j) [0..<Suc k * cols]"
    unfolding split map_append shift_upt ..
  finally show ?case .
qed

lemma init_squares_locations:
  assumes "0 \<le> board_n b"
  shows "map sq_location (init_squares b corner) = map int [0..<nat ((board_n b)\<^sup>2)]"
proof -
  have "nat ((board_n b)\<^sup>2) = nat (board_n b) * nat (board_n b)"
    using assms by (simp add: power2_eq_square nat_mult_distrib)
  then show ?thesis
    by (simp add: init_squares_def init_rows_locations)
qed

lemma filter_length_update:
  "i < length xs \<Longrightarrow>
   int (length (filter P (xs[i := y])))
     = int (length (filter P xs)) - (if P (xs ! i) then 1 else 0) + (if P y then 1 else 0)"
proof (induction xs arbitrary: i)
  case Nil
  then show ?case by simp
next
  case (Cons x xs)
  show ?case
  proof (cases i)
    case 0
    then show ?thesis by simp
  next
    case (Suc j)
    with Cons.prems have "j < length xs" by simp
    from Cons.IH [OF this] show ?thesis by (auto simp: Suc)
  qed
qed

lemma count_color_update:
  "i < length ps \<Longrightarrow>
   count_color col (ps[i := Some q])
     = count_color col ps
       - (if \<exists>p. ps ! i = Some p \<and> p_color p = col then 1 else 0)
       + (if p_color q = col then 1 else 0)"
  using filter_length_update [of i ps "\<lambda>tile. \<exists>p. tile = Some p \<and> p_color p = col" "Some q"]
  by (simp add: count_color_def)

lemma occupied_update:
  "i < length ps \<Longrightarrow>
   occupied (ps[i := Some q]) = occupied ps + (if ps ! i = None then 1 else 0)"
  using filter_length_update [of i ps "\<lambda>tile. tile \<noteq> None" "Some q"]
  by (simp add: occupied_def)

lemma occupied_counts: "occupied ps = count_color Black ps + count_color White ps"
proof (induction ps)
  case Nil
  then show ?case by (simp add: occupied_def count_color_def)
next
  case (Cons t ps)
  show ?case
  proof (cases t)
    case None
    with Cons show ?thesis by (simp add: occupied_def count_color_def)
  next
    case (Some p)
    with Cons show ?thesis by (cases "p_color p") (simp_all add: occupied_def count_color_def)
  qed
qed

lemma count_color_nonneg: "0 \<le> count_color col ps"
  by (simp add: count_color_def)

subsection \<open>Placing and flipping on a laid-out board\<close>

lemma laid_out_index:
  assumes "laid_out b" "0 \<le> loc" "loc < (board_n b)\<^sup>2"
  shows "nat loc < length (pieces b)" "nat loc < length (squares b)"
    "loc < int (length (pieces b))" "loc < int (length (squares b))"
    "sq_location (squares b ! nat loc) = loc"
    "py_index (pieces b) loc = Inr (pieces b ! nat loc)"
    "py_index (squares b) loc = Inr (squares b ! nat loc)"
proof -
  from assms(1) have len: "int (length (pieces b)) = (board_n b)\<^sup>2"
    and sq: "map sq_location (squares b) = map int [0..<length (pieces b)]"
    by (simp_all add: laid_out_def)
  from sq have lsq: "length (squares b) = length (pieces b)"
    by (metis length_map length_upt diff_zero)
  show p: "nat loc < length (pieces b)" using assms(2,3) len by linarith
  then show s: "nat loc < length (squares b)" by (simp add: lsq)
  show "loc < int (length (pieces b))" using assms(3) len by simp
  then show "loc < int (length (squares b))" by (simp add: lsq)
  have "sq_location (squares b ! nat loc) = map sq_location (squares b) ! nat loc"
    using s by simp
  also have "\<dots> = int (nat loc)" using p by (simp add: sq)
  finally show "sq_location (squares b ! nat loc) = loc" using assms(2) by simp
  show "py_index (pieces b) loc = Inr (pieces b ! nat loc)"
    using assms(2) p by (simp add: py_index_def)
  show "py_index (squares b) loc = Inr (squares b ! nat loc)"
    using assms(2) s by (simp add: py_index_def)
qed

lemma place_result:
  assumes "laid_out b" "0 \<le> loc" "loc < (board_n b)\<^sup>2"
  shows "\<exists>b' piece. place b loc = Inr b' \<and> same_frame b b'
      \<and> p_location piece = loc \<and> p_color piece = turn b
      \<and> pieces b' = (pieces b)[nat loc := Some piece]
      \<and> black b' = black b + (if turn b = Black then 1 else 0)
      \<and> white b' = white b + (if turn b = White then 1 else 0)"
proof -
  let ?sq = "squares b ! nat loc"
  let ?piece = "\<lparr>p_location = loc, p_color = turn b,
      p_x = fst (calc_center ?sq), p_y = snd (calc_center ?sq)\<rparr>"
  have st: "py_store (pieces b) loc (Some ?piece) = Inr ((pieces b)[nat loc := Some ?piece])"
    using assms(2) laid_out_index(1) [OF assms] by (simp add: py_store_def)
  have "place b loc =
      (if turn b = White
       then Inr (b\<lparr>pieces := (pieces b)[nat loc := Some ?piece], white := white b + 1\<rparr>)
       else Inr (b\<lparr>pieces := (pieces b)[nat loc := Some ?piece], black := black b + 1\<rparr>))"
    using assms(2,3) laid_out_index(7) [OF assms] st
    by (cases "turn b")
       (simp_all add: place_def and_then_def raised_in_def Let_def split_beta)
  then show ?thesis
    by (cases "turn b") (auto simp: same_frame_def intro!: exI [of _ ?piece])
qed

lemma laid_out_update:
  assumes "laid_out b" "same_frame b b'" "i < length (pieces b)" "p_location q = int i"
    "pieces b' = (pieces b)[i := Some q]"
  shows "laid_out b'"
  using assms by (auto simp: laid_out_def same_frame_def nth_list_update)

lemma counted_place:
  assumes "counted b" "i < length (pieces b)" "pieces b ! i = None"
    "pieces b' = (pieces b)[i := Some q]"
    "black b' = black b + (if p_color q = Black then 1 else 0)"
    "white b' = white b + (if p_color q = White then 1 else 0)"
  shows "counted b'"
  using assms by (simp add: counted_def count_color_update)

lemma flip_tile_result:
  assumes "laid_out b" "0 \<le> loc" "loc < (board_n b)\<^sup>2" "pieces b ! nat loc = Some p"
  shows "\<exists>b'. flip_tile b loc = Inr b' \<and> same_frame b b'
      \<and> pieces b' = (pieces b)[nat loc :=
            Some (p\<lparr>p_color := (if p_color p = Black then White else Black)\<rparr>)]
      \<and> black b' = black b + (if p_color p = Black then - 1 else 1)
      \<and> white b' = white b + (if p_color p = Black then 1 else - 1)"
  using flip_tile_occupied [OF assms(2,3) laid_out_index(3,4,5) [OF assms(1,2,3)] assms(4)]
  by (cases "p_color p") (simp_all add: same_frame_def)

lemma counted_flip:
  assumes "counted b" "i < length (pieces b)" "pieces b ! i = Some p"
    "pieces b' = (pieces b)[i := Some (p\<lparr>p_color := (if p_color p = Black then White else Black)\<rparr>)]"
    "black b' = black b + (if p_color p = Black then - 1 else 1)"
    "white b' = white b + (if p_color p = Black then 1 else - 1)"
  shows "counted b'"
  using assms by (cases "p_color p") (simp_all add: counted_def count_color_update)

subsection \<open>The legal-move table of a laid-out board\<close>

lemma laid_out_size:
  assumes "laid_out b"
  shows "2 \<le> board_n b" "int (length (pieces b)) = (board_n b)\<^sup>2"
  using assms by (simp_all add: laid_out_def)

lemma capture_dirs_spec:
  assumes "laid_out b" "0 \<le> loc" "loc < (board_n b)\<^sup>2"
  shows "capture_dirs b loc ds acc = Inr (acc @ concat (map (spec_captures b loc) ds))"
proof (induction ds arbitrary: acc)
  case Nil
  then show ?case by simp
next
  case (Cons d ds)
  have "can_capture_in_direction b loc d = Inr (spec_captures b loc d)"
    using can_capture_in_direction_eq [OF laid_out_size(1) [OF assms(1)] assms(2,3)
        laid_out_size(2) [OF assms(1)]] .
  then show ?case using Cons.IH by (simp add: and_then_def)
qed

lemma all_can_capture_spec:
  assumes "laid_out b" "0 \<le> loc" "loc < (board_n b)\<^sup>2"
  shows "all_can_capture b loc = Inr (spec_captures_at b loc)"
proof -
  note idx = laid_out_index [OF assms]
  have "is_empty (squares b ! nat loc) (pieces b) = Inr (pieces b ! nat loc = None)"
    by (simp add: is_empty_def idx(5,6) and_then_def)
  then show ?thesis
    using assms(2,3) idx(7) capture_dirs_spec [OF assms, of all_directions "[]"]
    by (simp add: all_can_capture_def and_then_def spec_captures_at_def)
qed

lemma valid_moves_loop_spec:
  assumes "laid_out b"
    and "\<forall>sq \<in> set sqs. 0 \<le> sq_location sq \<and> sq_location sq < (board_n b)\<^sup>2"
    and "sorted_wrt (<) (map fst moves @ map sq_location sqs)"
  shows "valid_moves_loop b sqs moves =
     Inr (moves @ filter (\<lambda>kv. snd kv \<noteq> [])
            (map (\<lambda>sq. (sq_location sq, spec_captures_at b (sq_location sq))) sqs))"
  using assms(2,3)
proof (induction sqs arbitrary: moves)
  case Nil
  then show ?case by simp
next
  case (Cons sq rest)
  let ?k = "sq_location sq"
  let ?cc = "spec_captures_at b ?k"
  let ?moves = "if ?cc \<noteq> [] then AList.update ?k ?cc moves else moves"
  have acc: "all_can_capture b ?k = Inr ?cc"
    using all_can_capture_spec [OF assms(1)] Cons.prems(1) by simp
  have fresh: "?k \<notin> fst ` set moves"
    using Cons.prems(2) by (auto simp: sorted_wrt_append)
  have upd: "?moves = moves @ (if ?cc \<noteq> [] then [(?k, ?cc)] else [])"
    by (simp add: update_new_key [OF fresh])
  have sorted: "sorted_wrt (<) (map fst ?moves @ map sq_location rest)"
    using Cons.prems(2) by (auto simp: upd sorted_wrt_append)
  have "valid_moves_loop b (sq # rest) moves = valid_moves_loop b rest ?moves"
    by (simp add: acc and_then_def)
  also have "\<dots> = Inr (?moves @ filter (\<lambda>kv. snd kv \<noteq> [])
            (map (\<lambda>sq. (sq_location sq, spec_captures_at b (sq_location sq))) rest))"
    using Cons.IH [OF _ sorted] Cons.prems(1) by simp
  finally show ?case by (simp add: upd)
qed

lemma find_valid_moves_spec:
  assumes "laid_out b"
  shows "find_valid_moves b = Inr (spec_legal_moves b)"
proof -
  from assms have sq: "map sq_location (squares b) = map int [0..<length (pieces b)]"
    and len: "int (length (pieces b)) = (board_n b)\<^sup>2"
    by (simp_all add: laid_out_def)
  have rng: "\<forall>sq \<in> set (squares b). 0 \<le> sq_location sq \<and> sq_location sq < (board_n b)\<^sup>2"
  proof
    fix s assume "s \<in> set (squares b)"
    then have "sq_location s \<in> set (map sq_location (squares b))" by simp
    then have "sq_location s \<in> int ` {0..<length (pieces b)}" by (simp add: sq)
    then show "0 \<le> sq_location s \<and> sq_location s < (board_n b)\<^sup>2"
      using len by auto
  qed
  have srt: "sorted_wrt (<) (map fst [] @ map sq_location (squares b))"
    using sorted_int_upt by (simp add: sq)
  have "map (\<lambda>s. (sq_location s, spec_captures_at b (sq_location s))) (squares b)
      = map (\<lambda>k. (k, spec_captures_at b k)) (map sq_location (squares b))"
    by (simp add: o_def)
  also have "\<dots> = map (\<lambda>i. (int i, spec_captures_at b (int i))) [0..<length (pieces b)]"
    by (simp add: sq o_def)
  finally show ?thesis
    using valid_moves_loop_spec [OF assms rng srt]
    by (simp add: find_valid_moves_def spec_legal_moves_def)
qed

lemma opponent_run_cells: "p \<in> set (opponent_run t cells) \<Longrightarrow> Some p \<in> set cells"
  by (induction t cells rule: opponent_run.induct) (auto split: if_splits)

lemma spec_captures_tile:
  assumes "laid_out b" "p \<in> set (spec_captures b loc d)"
  shows "0 \<le> p_location p \<and> p_location p < (board_n b)\<^sup>2
      \<and> pieces b ! nat (p_location p) = Some p \<and> p_color p \<noteq> turn b"
proof -
  from assms(2) have run: "p \<in> set (opponent_run (turn b) (spec_cells b loc d))"
    by (auto simp: spec_captures_def split: if_splits)
  from opponent_run_cells [OF run] obtain i where
    i: "i \<in> set (spec_ray b loc d)" "pieces b ! nat i = Some p"
    by (auto simp: spec_cells_def)
  have n: "0 < board_n b" using laid_out_size(1) [OF assms(1)] by simp
  from i(1) spec_ray_from_on_board [OF _ n] have on: "0 \<le> i" "i < (board_n b)\<^sup>2"
    by (auto simp: spec_ray_def)
  then have "nat i < length (pieces b)" using laid_out_size(2) [OF assms(1)] by linarith
  with assms(1) i(2) have "p_location p = int (nat i)" by (simp add: laid_out_def)
  with on i(2) opponent_run_colors [OF run] show ?thesis by simp
qed

lemma spec_legal_moves_entry:
  assumes "laid_out b" "(k, v) \<in> set (spec_legal_moves b)"
  shows "0 \<le> k" "k < (board_n b)\<^sup>2" "pieces b ! nat k = None" "v \<noteq> []"
    "\<forall>p \<in> set v. 0 \<le> p_location p \<and> p_location p < (board_n b)\<^sup>2
        \<and> pieces b ! nat (p_location p) = Some p \<and> p_color p \<noteq> turn b"
proof -
  from assms(2) obtain i where i: "i < length (pieces b)" "k = int i"
    and v: "v = spec_captures_at b (int i)" "v \<noteq> []"
    by (auto simp: spec_legal_moves_def)
  show "0 \<le> k" using i by simp
  show "k < (board_n b)\<^sup>2" using i laid_out_size(2) [OF assms(1)] by linarith
  show "v \<noteq> []" by (rule v(2))
  show "pieces b ! nat k = None"
    using v i by (auto simp: spec_captures_at_def split: if_splits)
  show "\<forall>p \<in> set v. 0 \<le> p_location p \<and> p_location p < (board_n b)\<^sup>2
        \<and> pieces b ! nat (p_location p) = Some p \<and> p_color p \<noteq> turn b"
    using v(1) spec_captures_tile [OF assms(1)]
    by (auto simp: spec_captures_at_def split: if_splits)
qed

subsection \<open>Flips and passes keep the invariant\<close>

lemma occupied_vacancy: "occupied (pieces b) = int (length (filter Not (vacancy b)))"
  by (simp add: occupied_def vacancy_def filter_map o_def)

lemma is_full_vacancy: "is_full b \<longleftrightarrow> True \<notin> set (vacancy b)"
proof -
  have "is_full b \<longleftrightarrow> (\<forall>tile \<in> set (pieces b). tile \<noteq> None)"
    by (simp only: is_full_def list_all_iff)
  also have "\<dots> \<longleftrightarrow> None \<notin> set (pieces b)"
    by metis
  also have "\<dots> \<longleftrightarrow> True \<notin> set (vacancy b)"
    by (auto simp: vacancy_def)
  finally show ?thesis .
qed

lemma vacancy_nth: "i < length (pieces b) \<Longrightarrow> vacancy b ! i \<longleftrightarrow> pieces b ! i = None"
  by (simp add: vacancy_def)

lemma vacancy_keep:
  assumes "pieces b' = (pieces b)[i := Some q]" "i < length (pieces b)" "pieces b ! i \<noteq> None"
  shows "vacancy b' = vacancy b"
proof -
  have "vacancy b' = (vacancy b)[i := False]"
    by (simp add: vacancy_def assms(1) map_update)
  also have "vacancy b ! i = False"
    using assms(2,3) by (simp add: vacancy_def)
  then have "(vacancy b)[i := False] = vacancy b"
    by (metis list_update_id)
  finally show ?thesis .
qed

lemma spec_captures_frame:
  "board_n b' = board_n b \<Longrightarrow> turn b' = turn b \<Longrightarrow> pieces b' = pieces b \<Longrightarrow>
   spec_captures b' = spec_captures b"
  by (intro ext) (simp add: spec_captures_def spec_cells_def spec_ray_def)

lemma spec_legal_moves_frame:
  "board_n b' = board_n b \<Longrightarrow> turn b' = turn b \<Longrightarrow> pieces b' = pieces b \<Longrightarrow>
   spec_legal_moves b' = spec_legal_moves b"
proof -
  assume h: "board_n b' = board_n b" "turn b' = turn b" "pieces b' = pieces b"
  have sc: "spec_captures b' = spec_captures b"
    by (rule spec_captures_frame [OF h])
  have "spec_captures_at b' = spec_captures_at b"
    by (intro ext) (simp only: spec_captures_at_def sc h)
  then show ?thesis
    by (simp only: spec_legal_moves_def h)
qed

lemma laid_out_frame:
  "board_n b' = board_n b \<Longrightarrow> squares b' = squares b \<Longrightarrow> pieces b' = pieces b \<Longrightarrow>
   laid_out b' = laid_out b"
  by (simp add: laid_out_def)

lemma switch_turns_fields:
  "board_n (switch_turns b) = board_n b" "pieces (switch_turns b) = pieces b"
  "squares (switch_turns b) = squares b" "black (switch_turns b) = black b"
  "white (switch_turns b) = white b" "ended (switch_turns b) = ended b"
  "valid_moves (switch_turns b) = valid_moves b"
  by (simp_all add: switch_turns_def)

lemma switch_turns_turn:
  "turn (switch_turns b) = (if turn b = White then Black else White)"
  by (cases "turn b") (simp_all add: switch_turns_def)

lemma next_turn_result:
  assumes "laid_out b" "counted b"
  shows "next_turn b = Inr ((switch_turns b)\<lparr>valid_moves := spec_legal_moves (switch_turns b)\<rparr>)"
    and "invariant ((switch_turns b)\<lparr>valid_moves := spec_legal_moves (switch_turns b)\<rparr>)"
proof -
  let ?s = "switch_turns b"
  let ?b = "?s\<lparr>valid_moves := spec_legal_moves ?s\<rparr>"
  have los: "laid_out ?s"
    using assms(1) laid_out_frame [of ?s b] by (simp add: switch_turns_fields)
  have fvm: "find_valid_moves ?s = Inr (spec_legal_moves ?s)"
    by (rule find_valid_moves_spec [OF los])
  show nt: "next_turn b = Inr ?b"
    by (simp add: next_turn_def Let_def fvm raised_in_def and_then_def)
  have lo: "laid_out ?b"
    using los laid_out_frame [of ?b ?s] by simp
  have "spec_legal_moves ?b = spec_legal_moves ?s"
    by (rule spec_legal_moves_frame) simp_all
  with find_valid_moves_spec [OF lo] have "find_valid_moves ?b = Inr (valid_moves ?b)" by simp
  moreover have "counted ?b"
    using assms(2) by (simp add: counted_def switch_turns_fields)
  ultimately show "invariant ?b" using lo by (simp add: invariant_def)
qed

lemma flip_tile_keeps:
  assumes "laid_out b" "counted b" "0 \<le> loc" "loc < (board_n b)\<^sup>2"
    "pieces b ! nat loc \<noteq> None"
  shows "\<exists>b1. flip_tile b loc = Inr b1 \<and> same_frame b b1 \<and> laid_out b1 \<and> counted b1
      \<and> vacancy b1 = vacancy b"
proof -
  from assms(5) obtain p where p: "pieces b ! nat loc = Some p" by auto
  note idx = laid_out_index [OF assms(1,3,4)]
  let ?q = "p\<lparr>p_color := (if p_color p = Black then White else Black)\<rparr>"
  from flip_tile_result [OF assms(1,3,4) p] obtain b1 where
    all1: "flip_tile b loc = Inr b1 \<and> same_frame b b1
      \<and> pieces b1 = (pieces b)[nat loc := Some ?q]
      \<and> black b1 = black b + (if p_color p = Black then - 1 else 1)
      \<and> white b1 = white b + (if p_color p = Black then 1 else - 1)" ..
  have f: "flip_tile b loc = Inr b1" using all1 by (rule conjunct1)
  have sf: "same_frame b b1" using all1 by (rule conjunct1 [OF conjunct2])
  have ps: "pieces b1 = (pieces b)[nat loc := Some ?q]"
    using all1 by (rule conjunct1 [OF conjunct2 [OF conjunct2]])
  have bl: "black b1 = black b + (if p_color p = Black then - 1 else 1)"
    using all1 by (rule conjunct1 [OF conjunct2 [OF conjunct2 [OF conjunct2]]])
  have wh: "white b1 = white b + (if p_color p = Black then 1 else - 1)"
    using all1 by (rule conjunct2 [OF conjunct2 [OF conjunct2 [OF conjunct2]]])
  have "p_location p = int (nat loc)"
    using assms(1) idx(1) p by (simp add: laid_out_def)
  then have ql: "p_location ?q = int (nat loc)" by simp
  have lo1: "laid_out b1"
    by (rule laid_out_update [OF assms(1) sf idx(1) ql ps])
  have c1: "counted b1"
    by (rule counted_flip [OF assms(2) idx(1) p ps bl wh])
  have v1: "vacancy b1 = vacancy b"
    by (rule vacancy_keep [OF ps idx(1) assms(5)])
  show ?thesis
    by (intro exI [of _ b1] conjI f sf lo1 c1 v1)
qed

lemma flip_tiles_result:
  assumes "laid_out b" "counted b"
    and "\<forall>t \<in> set tiles. 0 \<le> p_location t \<and> p_location t < (board_n b)\<^sup>2
          \<and> pieces b ! nat (p_location t) \<noteq> None"
  shows "\<exists>b'. flip_tiles b tiles = Inr b' \<and> same_frame b b' \<and> laid_out b' \<and> counted b'
      \<and> vacancy b' = vacancy b"
  using assms
proof (induction tiles arbitrary: b)
  case Nil
  have "flip_tiles b [] = Inr b" by simp
  moreover have "same_frame b b" by (simp add: same_frame_def)
  ultimately show ?case using Nil.prems(1,2) by blast
next
  case (Cons t tiles)
  let ?loc = "p_location t"
  have rng: "0 \<le> ?loc" "?loc < (board_n b)\<^sup>2" and occ: "pieces b ! nat ?loc \<noteq> None"
    using Cons.prems(3) by simp_all
  from flip_tile_keeps [OF Cons.prems(1,2) rng occ] obtain b1 where
    all1: "flip_tile b ?loc = Inr b1 \<and> same_frame b b1 \<and> laid_out b1 \<and> counted b1
      \<and> vacancy b1 = vacancy b" ..
  have f1: "flip_tile b ?loc = Inr b1" using all1 by (rule conjunct1)
  have sf1: "same_frame b b1" using all1 by (rule conjunct1 [OF conjunct2])
  have lo1: "laid_out b1" using all1 by (rule conjunct1 [OF conjunct2 [OF conjunct2]])
  have c1: "counted b1"
    using all1 by (rule conjunct1 [OF conjunct2 [OF conjunct2 [OF conjunct2]]])
  have v1: "vacancy b1 = vacancy b"
    using all1 by (rule conjunct2 [OF conjunct2 [OF conjunct2 [OF conjunct2]]])
  have n1: "board_n b1 = board_n b" and l1: "length (pieces b1) = length (pieces b)"
    using sf1 by (simp_all add: same_frame_def)
  have rest: "\<forall>t \<in> set tiles. 0 \<le> p_location t \<and> p_location t < (board_n b1)\<^sup>2
          \<and> pieces b1 ! nat (p_location t) \<noteq> None"
  proof
    fix u assume u: "u \<in> set tiles"
    with Cons.prems(3) have r: "0 \<le> p_location u" "p_location u < (board_n b)\<^sup>2"
      and o: "pieces b ! nat (p_location u) \<noteq> None" by simp_all
    have i: "nat (p_location u) < length (pieces b)"
      by (rule laid_out_index(1) [OF Cons.prems(1) r])
    have "\<not> vacancy b ! nat (p_location u)"
      using o i by (simp add: vacancy_nth)
    then have "\<not> vacancy b1 ! nat (p_location u)" by (simp add: v1)
    then have "pieces b1 ! nat (p_location u) \<noteq> None"
      using i l1 by (simp add: vacancy_nth)
    with r show "0 \<le> p_location u \<and> p_location u < (board_n b1)\<^sup>2
          \<and> pieces b1 ! nat (p_location u) \<noteq> None" by (simp add: n1)
  qed
  from Cons.IH [OF lo1 c1 rest] obtain b' where
    all2: "flip_tiles b1 tiles = Inr b' \<and> same_frame b1 b' \<and> laid_out b' \<and> counted b'
      \<and> vacancy b' = vacancy b1" ..
  have f2: "flip_tiles b1 tiles = Inr b'" using all2 by (rule conjunct1)
  have sf2: "same_frame b1 b'" using all2 by (rule conjunct1 [OF conjunct2])
  have lo2: "laid_out b'" using all2 by (rule conjunct1 [OF conjunct2 [OF conjunct2]])
  have c2: "counted b'"
    using all2 by (rule conjunct1 [OF conjunct2 [OF conjunct2 [OF conjunct2]]])
  have v2: "vacancy b' = vacancy b1"
    using all2 by (rule conjunct2 [OF conjunct2 [OF conjunct2 [OF conjunct2]]])
  have f: "flip_tiles b (t # tiles) = Inr b'"
    by (simp add: f1 f2 and_then_def)
  have sf: "same_frame b b'"
    using sf1 sf2 by (simp add: same_frame_def)
  have v: "vacancy b' = vacancy b" by (simp only: v2 v1)
  show ?case
    by (intro exI [of _ b'] conjI f sf lo2 c2 v)
qed

subsection \<open>A legal move keeps the invariant\<close>

lemma invariant_parts:
  assumes "invariant b"
  shows "laid_out b" "counted b" "valid_moves b = spec_legal_moves b"
proof -
  show lo: "laid_out b" and "counted b" using assms by (simp_all add: invariant_def)
  from assms have "find_valid_moves b = Inr (valid_moves b)" by (simp add: invariant_def)
  with find_valid_moves_spec [OF lo] show "valid_moves b = spec_legal_moves b" by simp
qed

lemma legal_key:
  assumes "invariant b" "k \<in> fst ` set (valid_moves b)"
  shows "0 \<le> k" "k < (board_n b)\<^sup>2" "pieces b ! nat k = None"
proof -
  from assms(2) obtain v where "(k, v) \<in> set (valid_moves b)" by auto
  then have e: "(k, v) \<in> set (spec_legal_moves b)"
    by (simp only: invariant_parts(3) [OF assms(1)])
  note lo = invariant_parts(1) [OF assms(1)]
  show "0 \<le> k" by (rule spec_legal_moves_entry(1) [OF lo e])
  show "k < (board_n b)\<^sup>2" by (rule spec_legal_moves_entry(2) [OF lo e])
  show "pieces b ! nat k = None" by (rule spec_legal_moves_entry(3) [OF lo e])
qed

lemma same_frame_fields:
  assumes "same_frame b b'"
  shows "board_n b' = board_n b" "turn b' = turn b" "squares b' = squares b"
    "valid_moves b' = valid_moves b" "ended b' = ended b"
    "length (pieces b') = length (pieces b)"
  using assms by (simp_all add: same_frame_def)

lemma make_move_result:
  assumes "invariant b" "k \<in> fst ` set (valid_moves b)"
  shows "\<exists>b'. make_move b k = Inr b' \<and> invariant b'
      \<and> vacancy b' = (vacancy b)[nat k := False]
      \<and> board_n b' = board_n b \<and> squares b' = squares b \<and> ended b' = ended b
      \<and> turn b' = (if turn b = White then Black else White)"
proof -
  note lo = invariant_parts(1) [OF assms(1)] and co = invariant_parts(2) [OF assms(1)]
  note vm = invariant_parts(3) [OF assms(1)]
  note key = legal_key [OF assms]
  note idx = laid_out_index [OF lo key(1,2)]
  from assms(2) have "map_of (valid_moves b) k \<noteq> None"
    by (simp add: map_of_eq_None_iff)
  then obtain to_flip where look: "map_of (valid_moves b) k = Some to_flip" by auto
  then have "(k, to_flip) \<in> set (valid_moves b)" by (rule map_of_SomeD)
  then have entry: "(k, to_flip) \<in> set (spec_legal_moves b)" by (simp only: vm)
  note tiles = spec_legal_moves_entry(5) [OF lo entry]
  from place_result [OF lo key(1,2)] obtain b1 piece where
    all1: "place b k = Inr b1 \<and> same_frame b b1
      \<and> p_location piece = k \<and> p_color piece = turn b
      \<and> pieces b1 = (pieces b)[nat k := Some piece]
      \<and> black b1 = black b + (if turn b = Black then 1 else 0)
      \<and> white b1 = white b + (if turn b = White then 1 else 0)" by blast
  have pl: "place b k = Inr b1" and sf1: "same_frame b b1"
    and ploc: "p_location piece = k" and pcol: "p_color piece = turn b"
    and ps1: "pieces b1 = (pieces b)[nat k := Some piece]"
    and bl1: "black b1 = black b + (if turn b = Black then 1 else 0)"
    and wh1: "white b1 = white b + (if turn b = White then 1 else 0)"
    using all1 by blast+
  note fr1 = same_frame_fields [OF sf1]
  have ploc': "p_location piece = int (nat k)" using ploc key(1) by simp
  have lo1: "laid_out b1"
    by (rule laid_out_update [OF lo sf1 idx(1) ploc' ps1])
  have co1: "counted b1"
    using counted_place [OF co idx(1) key(3) ps1] bl1 wh1 pcol by simp
  have v1: "vacancy b1 = (vacancy b)[nat k := False]"
    by (simp add: vacancy_def ps1 map_update)
  have tiles1: "\<forall>t \<in> set to_flip. 0 \<le> p_location t \<and> p_location t < (board_n b1)\<^sup>2
          \<and> pieces b1 ! nat (p_location t) \<noteq> None"
  proof
    fix t assume "t \<in> set to_flip"
    with tiles have r: "0 \<le> p_location t" "p_location t < (board_n b)\<^sup>2"
      and o: "pieces b ! nat (p_location t) = Some t" by simp_all
    have i: "nat (p_location t) < length (pieces b)"
      by (rule laid_out_index(1) [OF lo r])
    have "pieces b1 ! nat (p_location t) \<noteq> None"
      using o i idx(1) by (simp add: ps1 nth_list_update)
    with r show "0 \<le> p_location t \<and> p_location t < (board_n b1)\<^sup>2
          \<and> pieces b1 ! nat (p_location t) \<noteq> None" by (simp add: fr1(1))
  qed
  from flip_tiles_result [OF lo1 co1 tiles1] obtain b2 where
    all2: "flip_tiles b1 to_flip = Inr b2 \<and> same_frame b1 b2 \<and> laid_out b2 \<and> counted b2
      \<and> vacancy b2 = vacancy b1" ..
  have fl: "flip_tiles b1 to_flip = Inr b2" and sf2: "same_frame b1 b2"
    and lo2: "laid_out b2" and co2: "counted b2" and v2: "vacancy b2 = vacancy b1"
    using all2 by blast+
  note fr2 = same_frame_fields [OF sf2]
  let ?b3 = "(switch_turns b2)\<lparr>valid_moves := spec_legal_moves (switch_turns b2)\<rparr>"
  note nt = next_turn_result [OF lo2 co2]
  have look1: "map_of (valid_moves b1) k = Some to_flip"
    by (simp only: fr1(4) look)
  have mm: "make_move b k = Inr ?b3"
    using key(1,2) by (simp add: make_move_def pl look1 fl nt(1) and_then_def)
  have v3: "vacancy ?b3 = (vacancy b)[nat k := False]"
    using v2 v1 by (simp add: vacancy_def switch_turns_fields)
  have f3: "board_n ?b3 = board_n b" "squares ?b3 = squares b" "ended ?b3 = ended b"
    by (simp_all add: switch_turns_fields fr1 fr2)
  have t3: "turn ?b3 = (if turn b = White then Black else White)"
    by (simp add: switch_turns_turn fr1 fr2)
  show ?thesis
    by (intro exI [of _ ?b3] conjI mm nt(2) v3 f3 t3)
qed

subsection \<open>Illegal moves\<close>

lemma new_GameBoard_4: "new_GameBoard 4 = Inr start4"
proof -
  have sq: "init_squares \<lparr>board_n = 4, turn = Black, pieces = replicate 16 None,
                black = 0, white = 0, squares = [], valid_moves = [], ended = False\<rparr>
              (- (4 * SQUARE) div 2) = init_rows 4 4 0 (- 100) (- 100)"
    by (simp add: init_squares_def SQUARE_def)
  have draw: "draw_start_tiles \<lparr>board_n = 4, turn = Black,
                pieces = replicate 16 None,
                black = 0, white = 0, squares = init_rows 4 4 0 (- 100) (- 100),
                valid_moves = [], ended = False\<rparr> = Inr board4"
    by (simp add: draw_start_tiles_def find_center_squares_def Let_def place_def
        and_then_def raised_in_def py_index_def py_store_def squares_start4 calc_center_def
        switch_turns_def board4_def eval_nat_numeral SQUARE_def)
  show ?thesis
    by (simp add: new_GameBoard_def Let_def sq draw and_then_def raised_in_def
        find_valid_moves_board4 start4_def)
qed






subsection \<open>The constructor establishes the invariant\<close>

lemma place_keeps:
  assumes "laid_out b" "counted b" "0 \<le> loc" "loc < (board_n b)\<^sup>2"
    "pieces b ! nat loc = None"
  shows "\<exists>b1 piece. place b loc = Inr b1 \<and> same_frame b b1 \<and> laid_out b1 \<and> counted b1
      \<and> pieces b1 = (pieces b)[nat loc := Some piece]
      \<and> black b1 = black b + (if turn b = Black then 1 else 0)
      \<and> white b1 = white b + (if turn b = White then 1 else 0)"
proof -
  note idx = laid_out_index [OF assms(1,3,4)]
  from place_result [OF assms(1,3,4)] obtain b1 piece where
    all1: "place b loc = Inr b1 \<and> same_frame b b1
      \<and> p_location piece = loc \<and> p_color piece = turn b
      \<and> pieces b1 = (pieces b)[nat loc := Some piece]
      \<and> black b1 = black b + (if turn b = Black then 1 else 0)
      \<and> white b1 = white b + (if turn b = White then 1 else 0)" by blast
  have pl: "place b loc = Inr b1" and sf1: "same_frame b b1"
    and ploc: "p_location piece = loc" and pcol: "p_color piece = turn b"
    and ps1: "pieces b1 = (pieces b)[nat loc := Some piece]"
    and bl1: "black b1 = black b + (if turn b = Black then 1 else 0)"
    and wh1: "white b1 = white b + (if turn b = White then 1 else 0)"
    using all1 by blast+
  have ploc': "p_location piece = int (nat loc)" using ploc assms(3) by simp
  have lo1: "laid_out b1"
    by (rule laid_out_update [OF assms(1) sf1 idx(1) ploc' ps1])
  have co1: "counted b1"
    using counted_place [OF assms(2) idx(1) assms(5) ps1] bl1 wh1 pcol by simp
  show ?thesis
    by (intro exI [of _ b1] exI [of _ piece] conjI pl sf1 lo1 co1 ps1 bl1 wh1)
qed

lemma start_tiles_loop_result:
  assumes "laid_out b" "counted b" "distinct locs"
    and "\<forall>loc \<in> set locs. 0 \<le> loc \<and> loc < (board_n b)\<^sup>2 \<and> pieces b ! nat loc = None"
  shows "\<exists>b'. start_tiles_loop b locs = Inr b' \<and> laid_out b' \<and> counted b'
      \<and> board_n b' = board_n b \<and> ended b' = ended b"
  using assms
proof (induction locs arbitrary: b)
  case Nil
  have "start_tiles_loop b [] = Inr b" by simp
  then show ?case using Nil.prems(1,2) by blast
next
  case (Cons loc rest)
  have rng: "0 \<le> loc" "loc < (board_n b)\<^sup>2" and emp: "pieces b ! nat loc = None"
    using Cons.prems(4) by simp_all
  note idx = laid_out_index [OF Cons.prems(1) rng]
  from place_keeps [OF Cons.prems(1,2) rng emp] obtain b1 piece where
    all1: "place b loc = Inr b1 \<and> same_frame b b1 \<and> laid_out b1 \<and> counted b1
      \<and> pieces b1 = (pieces b)[nat loc := Some piece]
      \<and> black b1 = black b + (if turn b = Black then 1 else 0)
      \<and> white b1 = white b + (if turn b = White then 1 else 0)" by blast
  have pl: "place b loc = Inr b1" and sf1: "same_frame b b1" and lo1: "laid_out b1"
    and co1: "counted b1" and ps1: "pieces b1 = (pieces b)[nat loc := Some piece]"
    using all1 by blast+
  note fr1 = same_frame_fields [OF sf1]
  let ?s = "switch_turns b1"
  have los: "laid_out ?s"
    using lo1 laid_out_frame [of ?s b1] by (simp add: switch_turns_fields)
  have cos: "counted ?s"
    using co1 by (simp add: counted_def switch_turns_fields)
  have d: "distinct rest" using Cons.prems(3) by simp
  have rest: "\<forall>l \<in> set rest. 0 \<le> l \<and> l < (board_n ?s)\<^sup>2 \<and> pieces ?s ! nat l = None"
  proof
    fix l assume l: "l \<in> set rest"
    with Cons.prems(4) have r: "0 \<le> l" "l < (board_n b)\<^sup>2" and e: "pieces b ! nat l = None"
      by simp_all
    from l Cons.prems(3) have "l \<noteq> loc" by auto
    with r(1) rng(1) have ne: "nat l \<noteq> nat loc" by simp
    have "pieces ?s ! nat l = None"
      using e ne by (simp add: switch_turns_fields ps1)
    with r show "0 \<le> l \<and> l < (board_n ?s)\<^sup>2 \<and> pieces ?s ! nat l = None"
      by (simp add: switch_turns_fields fr1(1))
  qed
  from Cons.IH [OF los cos d rest] obtain b' where
    all2: "start_tiles_loop ?s rest = Inr b' \<and> laid_out b' \<and> counted b'
      \<and> board_n b' = board_n ?s \<and> ended b' = ended ?s" ..
  have st: "start_tiles_loop ?s rest = Inr b'" and lo2: "laid_out b'" and co2: "counted b'"
    and n2: "board_n b' = board_n ?s" and e2: "ended b' = ended ?s"
    using all2 by blast+
  have f: "start_tiles_loop b (loc # rest) = Inr b'"
    by (simp add: pl st and_then_def)
  have n: "board_n b' = board_n b" by (simp add: n2 switch_turns_fields fr1)
  have e: "ended b' = ended b" by (simp add: e2 switch_turns_fields fr1)
  show ?case
    by (intro exI [of _ b'] conjI f lo2 co2 n e)
qed

lemma center_squares:
  assumes "4 \<le> n" "n mod 2 \<noteq> 1" "board_n b = n"
  shows "distinct (find_center_squares b)"
    and "\<forall>loc \<in> set (find_center_squares b). 0 \<le> loc \<and> loc < n\<^sup>2"
proof -
  from assms(2) have "n mod 2 = 0" by presburger
  then obtain m where m: "n = 2 * m" by auto
  with assms(1) have m2: "2 \<le> m" by simp
  define k where "k = m * m"
  from m2 have "2 * m \<le> m * m" by (simp add: mult_right_mono)
  then have mk: "2 * m \<le> k" by (simp add: k_def)
  have n2: "n\<^sup>2 = 4 * k" unfolding m k_def power2_eq_square by simp
  have "(n\<^sup>2 + n) div 2 = (2 * (2 * k + m)) div 2"
    by (simp only: n2) (simp add: m)
  then have ur: "(n\<^sup>2 + n) div 2 = 2 * k + m" by simp
  have cs: "find_center_squares b = [2 * k + m - 1, 2 * k + m, 2 * k + m - n, 2 * k + m - n - 1]"
    by (simp add: find_center_squares_def Let_def assms(3) ur)
  show "distinct (find_center_squares b)"
    unfolding cs using m2 by (simp add: m)
  show "\<forall>loc \<in> set (find_center_squares b). 0 \<le> loc \<and> loc < n\<^sup>2"
    unfolding cs n2 using m2 mk by (simp add: m)
qed

lemma new_GameBoard_result:
  assumes "4 \<le> n" "n mod 2 \<noteq> 1"
  shows "\<exists>b. new_GameBoard n = Inr b \<and> invariant b \<and> board_n b = n \<and> \<not> ended b"
proof -
  define b0 where "b0 = \<lparr>board_n = n, turn = Black, pieces = replicate (nat (n * n)) None,
                black = 0, white = 0, squares = [], valid_moves = [], ended = False\<rparr>"
  define b1 where "b1 = b0\<lparr>squares := init_squares b0 ((- n * SQUARE) div 2)\<rparr>"
  have new: "new_GameBoard n =
      and_then (draw_start_tiles b1) (\<lambda>b2.
        and_then (raised_in b2 (find_valid_moves b2)) (\<lambda>moves.
          Inr (b2\<lparr>valid_moves := moves\<rparr>)))"
    using assms unfolding new_GameBoard_def Let_def b1_def b0_def by simp
  have f1: "board_n b1 = n" "pieces b1 = replicate (nat (n * n)) None" "black b1 = 0"
    "white b1 = 0" "\<not> ended b1" "squares b1 = init_squares b0 ((- n * SQUARE) div 2)"
    "board_n b0 = n"
    by (simp_all add: b1_def b0_def)
  have "map sq_location (init_squares b0 ((- n * SQUARE) div 2))
      = map int [0..<nat ((board_n b0)\<^sup>2)]"
    by (rule init_squares_locations) (use assms(1) in \<open>simp add: f1(7)\<close>)
  then have sq: "map sq_location (squares b1) = map int [0..<nat (n\<^sup>2)]"
    by (simp only: f1(6,7))
  have lo1: "laid_out b1"
    using assms(1) by (simp add: laid_out_def f1(1,2) sq power2_eq_square)
  have co1: "counted b1"
    by (simp add: counted_def count_color_def f1)
  note cs = center_squares [OF assms f1(1)]
  have emp: "\<forall>loc \<in> set (find_center_squares b1).
      0 \<le> loc \<and> loc < (board_n b1)\<^sup>2 \<and> pieces b1 ! nat loc = None"
  proof
    fix loc assume "loc \<in> set (find_center_squares b1)"
    with cs(2) have r: "0 \<le> loc" "loc < n\<^sup>2" by simp_all
    then have "nat loc < nat (n * n)" by (simp add: power2_eq_square)
    then have "pieces b1 ! nat loc = None" by (simp add: f1)
    with r show "0 \<le> loc \<and> loc < (board_n b1)\<^sup>2 \<and> pieces b1 ! nat loc = None"
      by (simp add: f1)
  qed
  from start_tiles_loop_result [OF lo1 co1 cs(1) emp] obtain b2 where
    all2: "start_tiles_loop b1 (find_center_squares b1) = Inr b2 \<and> laid_out b2 \<and> counted b2
      \<and> board_n b2 = board_n b1 \<and> ended b2 = ended b1" ..
  have st: "start_tiles_loop b1 (find_center_squares b1) = Inr b2" and lo2: "laid_out b2"
    and co2: "counted b2" and n2: "board_n b2 = board_n b1" and e2: "ended b2 = ended b1"
    using all2 by blast+
  let ?b = "b2\<lparr>valid_moves := spec_legal_moves b2\<rparr>"
  have res: "new_GameBoard n = Inr ?b"
    by (simp add: new draw_start_tiles_def st find_valid_moves_spec [OF lo2] raised_in_def
        and_then_def)
  have lo: "laid_out ?b"
    using lo2 laid_out_frame [of ?b b2] by simp
  have "spec_legal_moves ?b = spec_legal_moves b2"
    by (rule spec_legal_moves_frame) simp_all
  with find_valid_moves_spec [OF lo] have fv: "find_valid_moves ?b = Inr (valid_moves ?b)"
    by simp
  have co: "counted ?b" using co2 by (simp add: counted_def)
  have inv: "invariant ?b" using lo co fv by (simp add: invariant_def)
  have n: "board_n ?b = n" by (simp add: n2 f1)
  have e: "\<not> ended ?b" by (simp add: e2 f1)
  show ?thesis
    by (intro exI [of _ ?b] conjI res inv n e)
qed

lemma new_GameBoard_invariant:
  assumes "new_GameBoard n = Inr b"
  shows "invariant b" "4 \<le> n" "n mod 2 \<noteq> 1" "board_n b = n" "\<not> ended b"
proof -
  show n4: "4 \<le> n"
    using assms by (cases "4 \<le> n") (simp_all add: new_GameBoard_def Let_def)
  show ev: "n mod 2 \<noteq> 1"
    using assms n4 by (cases "n mod 2 \<noteq> 1") (simp_all add: new_GameBoard_def Let_def)
  from new_GameBoard_result [OF n4 ev] obtain b' where
    "new_GameBoard n = Inr b' \<and> invariant b' \<and> board_n b' = n \<and> \<not> ended b'" ..
  with assms show "invariant b" "board_n b = n" "\<not> ended b" by simp_all
qed

subsection \<open>Passing the turn\<close>

lemma empties_vacancy: "empties b = length (filter (\<lambda>v. v) (vacancy b))"
  by (simp add: empties_def vacancy_def filter_map comp_def)

lemma empties_frame: "pieces b' = pieces b \<Longrightarrow> empties b' = empties b"
  by (simp add: empties_def)

lemma empties_move:
  assumes "vacancy b' = (vacancy b)[i := False]" "i < length (pieces b)" "pieces b ! i = None"
  shows "Suc (empties b') = empties b"
proof -
  have i: "i < length (vacancy b)" using assms(2) by (simp add: vacancy_def)
  have v: "vacancy b ! i" using assms(2,3) by (simp add: vacancy_nth)
  from filter_length_update [OF i, of "\<lambda>v. v" False] v
  have "int (length (filter (\<lambda>v. v) ((vacancy b)[i := False])))
      = int (length (filter (\<lambda>v. v) (vacancy b))) - 1" by simp
  then show ?thesis by (simp add: empties_vacancy assms(1))
qed

lemma full_no_moves:
  assumes "is_full b"
  shows "spec_legal_moves b = []"
proof -
  from assms have "\<forall>i < length (pieces b). pieces b ! i \<noteq> None"
    by (simp add: is_full_def list_all_length)
  then have "\<forall>i < length (pieces b). spec_captures_at b (int i) = []"
    unfolding spec_captures_at_def by auto
  then show ?thesis
    by (simp add: spec_legal_moves_def filter_empty_conv)
qed

lemma is_full_frame: "pieces b' = pieces b \<Longrightarrow> is_full b' = is_full b"
  by (simp add: is_full_def)

lemma invariant_frame:
  assumes "invariant b" "board_n b' = board_n b" "squares b' = squares b"
    "pieces b' = pieces b" "turn b' = turn b" "valid_moves b' = valid_moves b"
    "black b' = black b" "white b' = white b"
  shows "invariant b'"
proof -
  note lo = invariant_parts(1) [OF assms(1)] and co = invariant_parts(2) [OF assms(1)]
  note vm = invariant_parts(3) [OF assms(1)]
  have lo': "laid_out b'"
    using lo laid_out_frame [OF assms(2,3,4)] by simp
  have co': "counted b'"
    using co by (simp add: counted_def assms(4,7,8))
  have "spec_legal_moves b' = spec_legal_moves b"
    by (rule spec_legal_moves_frame [OF assms(2,5,4)])
  with find_valid_moves_spec [OF lo'] have "find_valid_moves b' = Inr (valid_moves b')"
    by (simp add: assms(6) vm)
  with lo' co' show ?thesis by (simp add: invariant_def)
qed

lemma invariant_end_game: "invariant b \<Longrightarrow> invariant (end_game b)"
  by (rule invariant_frame [of b]) (simp_all add: end_game_def)

lemma invariant_full_black:
  assumes "invariant b" "is_full b"
  shows "invariant ((end_game b)\<lparr>turn := Black\<rparr>)"
proof -
  let ?b = "(end_game b)\<lparr>turn := Black\<rparr>"
  note lo = invariant_parts(1) [OF assms(1)] and co = invariant_parts(2) [OF assms(1)]
  note vm = invariant_parts(3) [OF assms(1)]
  have lo': "laid_out ?b"
    using lo laid_out_frame [of ?b b] by (simp add: end_game_def)
  have co': "counted ?b"
    using co by (simp add: counted_def end_game_def)
  have "is_full ?b" using assms(2) by (simp add: is_full_def end_game_def)
  then have "spec_legal_moves ?b = []" by (rule full_no_moves)
  moreover have "valid_moves ?b = []"
    using vm full_no_moves [OF assms(2)] by (simp add: end_game_def)
  ultimately have "find_valid_moves ?b = Inr (valid_moves ?b)"
    using find_valid_moves_spec [OF lo'] by simp
  with lo' co' show ?thesis by (simp add: invariant_def)
qed

lemma next_turn_frame:
  assumes "laid_out b" "counted b" "next_turn b = Inr b'"
  shows "invariant b'" "board_n b' = board_n b" "squares b' = squares b"
    "pieces b' = pieces b" "ended b' = ended b"
    "turn b' = (if turn b = White then Black else White)"
    "valid_moves b' = spec_legal_moves b'"
proof -
  let ?b = "(switch_turns b)\<lparr>valid_moves := spec_legal_moves (switch_turns b)\<rparr>"
  note nt = next_turn_result [OF assms(1,2)]
  from nt(1) assms(3) have eq: "b' = ?b" by simp
  show inv: "invariant b'" by (simp only: eq nt(2))
  show "board_n b' = board_n b" "squares b' = squares b" "pieces b' = pieces b"
    "ended b' = ended b"
    by (simp_all add: eq switch_turns_fields)
  show "turn b' = (if turn b = White then Black else White)"
    by (simp add: eq switch_turns_turn)
  show "valid_moves b' = spec_legal_moves b'"
    by (rule invariant_parts(3) [OF inv])
qed

lemma next_turn_total:
  assumes "laid_out b" "counted b"
  shows "\<exists>b'. next_turn b = Inr b'"
  using next_turn_result(1) [OF assms] by blast

lemma pass_back:
  assumes "laid_out b" "counted b" "next_turn b = Inr b'"
  shows "find_valid_moves (switch_turns b') = Inr (spec_legal_moves b)"
proof -
  note fr = next_turn_frame [OF assms]
  let ?s = "switch_turns b'"
  have n: "board_n ?s = board_n b" and s: "squares ?s = squares b"
    and p: "pieces ?s = pieces b"
    by (simp_all add: switch_turns_fields fr)
  have t: "turn ?s = turn b"
    by (cases "turn b") (simp_all add: switch_turns_turn fr(6))
  have lo: "laid_out ?s" using assms(1) laid_out_frame [OF n s p] by simp
  have "spec_legal_moves ?s = spec_legal_moves b"
    by (rule spec_legal_moves_frame [OF n t p])
  with find_valid_moves_spec [OF lo] show ?thesis by simp
qed

lemma choose_move_none: "valid_moves b = [] \<Longrightarrow> choose_move b = - 1"
  by (simp add: choose_move_def)

lemma choose_move_key:
  assumes "invariant b" "valid_moves b \<noteq> []"
  shows "choose_move b \<in> fst ` set (valid_moves b)" "choose_move b \<noteq> - 1"
proof -
  note lo = invariant_parts(1) [OF assms(1)] and vm = invariant_parts(3) [OF assms(1)]
  from assms(2) obtain kv where kv: "kv \<in> set (valid_moves b)"
    by (cases "valid_moves b") auto
  then have "(fst kv, snd kv) \<in> set (spec_legal_moves b)" by (simp add: vm)
  from spec_legal_moves_entry(4) [OF lo this] have "0 < length (snd kv)" by simp
  with kv have "\<exists>kv \<in> set (valid_moves b). 0 < length (snd kv)" by blast
  from choose_loop_first_max [OF this, of "- 1"] obtain i where
    i: "i < length (valid_moves b)" and c: "choose_move b = fst (valid_moves b ! i)"
    unfolding choose_move_def by blast
  from i have "valid_moves b ! i \<in> set (valid_moves b)" by simp
  then show key: "choose_move b \<in> fst ` set (valid_moves b)"
    unfolding c by (rule imageI)
  from legal_key(1) [OF assms(1) key] show "choose_move b \<noteq> - 1" by simp
qed

subsection \<open>The computer's turn and a whole call of play\<close>

lemma computer_move_pass:
  assumes "invariant b" "valid_moves b = []"
  shows "\<exists>b'. computer_move (Suc depth) b = Inr (False, b') \<and> next_turn b = Inr b'
      \<and> returns_control b False b'"
proof -
  note lo = invariant_parts(1) [OF assms(1)] and co = invariant_parts(2) [OF assms(1)]
  note vm = invariant_parts(3) [OF assms(1)]
  from next_turn_total [OF lo co] obtain b' where nt: "next_turn b = Inr b'" ..
  note fr = next_turn_frame [OF lo co nt]
  have cm: "computer_move (Suc depth) b = Inr (False, b')"
    by (simp add: choose_move_none [OF assms(2)] nt and_then_def)
  have "find_valid_moves (switch_turns b') = Inr (spec_legal_moves b)"
    by (rule pass_back [OF lo co nt])
  then have none: "find_valid_moves (switch_turns b') = Inr []"
    using vm assms(2) by simp
  have rc: "returns_control b False b'"
    unfolding returns_control_def
    using fr(1,2,3,5,6) none empties_frame [OF fr(4)] by simp
  show ?thesis
    by (intro exI [of _ b'] conjI cm nt rc)
qed

lemma computer_move_step:
  assumes "invariant b" "valid_moves b \<noteq> []"
  shows "\<exists>b1. make_move b (choose_move b) = Inr b1 \<and> invariant b1
      \<and> board_n b1 = board_n b \<and> squares b1 = squares b \<and> ended b1 = ended b
      \<and> turn b1 = (if turn b = White then Black else White)
      \<and> Suc (empties b1) = empties b
      \<and> computer_move (Suc depth) b =
          (if is_full b1 then Inr (True, end_game b1)
           else if valid_moves b1 = [] then
             and_then (next_turn b1) (\<lambda>b2. computer_move depth b2)
           else Inr (True, b1))"
proof -
  note lo = invariant_parts(1) [OF assms(1)]
  note key = choose_move_key [OF assms]
  note rng = legal_key [OF assms(1) key(1)]
  note idx = laid_out_index [OF lo rng(1,2)]
  from make_move_result [OF assms(1) key(1)] obtain b1 where
    all1: "make_move b (choose_move b) = Inr b1 \<and> invariant b1
      \<and> vacancy b1 = (vacancy b)[nat (choose_move b) := False]
      \<and> board_n b1 = board_n b \<and> squares b1 = squares b \<and> ended b1 = ended b
      \<and> turn b1 = (if turn b = White then Black else White)" ..
  have mm: "make_move b (choose_move b) = Inr b1" and inv1: "invariant b1"
    and v1: "vacancy b1 = (vacancy b)[nat (choose_move b) := False]"
    and n1: "board_n b1 = board_n b" and s1: "squares b1 = squares b"
    and e1: "ended b1 = ended b"
    and t1: "turn b1 = (if turn b = White then Black else White)"
    using all1 by blast+
  have em: "Suc (empties b1) = empties b"
    by (rule empties_move [OF v1 idx(1) rng(3)])
  have cm: "computer_move (Suc depth) b =
          (if is_full b1 then Inr (True, end_game b1)
           else if valid_moves b1 = [] then
             and_then (next_turn b1) (\<lambda>b2. computer_move depth b2)
           else Inr (True, b1))"
    using key(2) by (simp add: mm and_then_def Let_def)
  show ?thesis
    by (intro exI [of _ b1] conjI mm inv1 n1 s1 e1 t1 em cm)
qed

lemma computer_move_result:
  assumes "invariant b"
  shows "(\<exists>moved b'. computer_move depth b = Inr (moved, b') \<and> returns_control b moved b')
     \<or> (depth \<le> empties b \<and> (\<exists>s. computer_move depth b = Inl (RecursionError, s)))"
  using assms
proof (induction depth arbitrary: b)
  case 0
  have "computer_move 0 b = Inl (RecursionError, b)" by simp
  then show ?case by blast
next
  case (Suc depth)
  note inv = Suc.prems
  show ?case
  proof (cases "valid_moves b = []")
    case True
    from computer_move_pass [OF inv True, of depth] show ?thesis by blast
  next
    case False
    from computer_move_step [OF inv False, of depth] obtain b1 where
      all1: "make_move b (choose_move b) = Inr b1 \<and> invariant b1
        \<and> board_n b1 = board_n b \<and> squares b1 = squares b \<and> ended b1 = ended b
        \<and> turn b1 = (if turn b = White then Black else White)
        \<and> Suc (empties b1) = empties b
        \<and> computer_move (Suc depth) b =
            (if is_full b1 then Inr (True, end_game b1)
             else if valid_moves b1 = [] then
               and_then (next_turn b1) (\<lambda>b2. computer_move depth b2)
             else Inr (True, b1))" ..
    have inv1: "invariant b1" and n1: "board_n b1 = board_n b"
      and s1: "squares b1 = squares b" and e1: "ended b1 = ended b"
      and t1: "turn b1 = (if turn b = White then Black else White)"
      and em: "Suc (empties b1) = empties b"
      and cm: "computer_move (Suc depth) b =
            (if is_full b1 then Inr (True, end_game b1)
             else if valid_moves b1 = [] then
               and_then (next_turn b1) (\<lambda>b2. computer_move depth b2)
             else Inr (True, b1))"
      using all1 by blast+
    note lo1 = invariant_parts(1) [OF inv1] and co1 = invariant_parts(2) [OF inv1]
    consider (full) "is_full b1" | (again) "\<not> is_full b1" "valid_moves b1 = []"
      | (user) "\<not> is_full b1" "valid_moves b1 \<noteq> []" by blast
    then show ?thesis
    proof cases
      case full
      have r: "computer_move (Suc depth) b = Inr (True, end_game b1)"
        using cm full by simp
      have f: "is_full (end_game b1)" using full by (simp add: is_full_def end_game_def)
      have e: "empties (end_game b1) \<le> empties b"
        using em by (simp add: empties_def end_game_def)
      have rc: "returns_control b True (end_game b1)"
        unfolding returns_control_def
        using invariant_end_game [OF inv1] f e n1 s1 t1 by (simp add: end_game_def)
      from r rc show ?thesis by blast
    next
      case user
      have r: "computer_move (Suc depth) b = Inr (True, b1)"
        using cm user by simp
      have rc: "returns_control b True b1"
        unfolding returns_control_def
        using inv1 n1 s1 e1 t1 em user(2) by simp
      from r rc show ?thesis by blast
    next
      case again
      from next_turn_total [OF lo1 co1] obtain b2 where nt: "next_turn b1 = Inr b2" ..
      note fr = next_turn_frame [OF lo1 co1 nt]
      have r: "computer_move (Suc depth) b = computer_move depth b2"
        using cm again by (simp add: nt and_then_def)
      have e2: "empties b2 = empties b1" by (rule empties_frame [OF fr(4)])
      have t2: "turn b2 = turn b"
        by (cases "turn b") (simp_all add: fr(6) t1)
      from Suc.IH [OF fr(1)] show ?thesis
      proof
        assume "\<exists>moved b'. computer_move depth b2 = Inr (moved, b')
            \<and> returns_control b2 moved b'"
        then obtain moved b' where c: "computer_move depth b2 = Inr (moved, b')"
          and rc2: "returns_control b2 moved b'" by blast
        have rc: "returns_control b moved b'"
          using rc2 unfolding returns_control_def
          by (simp add: fr(2,3,5) n1 s1 e1 t2 e2) (use em e2 in linarith)
        from c rc r show ?thesis by simp
      next
        assume "depth \<le> empties b2 \<and> (\<exists>s. computer_move depth b2 = Inl (RecursionError, s))"
        then have d: "depth \<le> empties b2"
          and "\<exists>s. computer_move depth b2 = Inl (RecursionError, s)" by blast+
        then obtain s where "computer_move depth b2 = Inl (RecursionError, s)" by blast
        then have "computer_move (Suc depth) b = Inl (RecursionError, s)" by (simp only: r)
        moreover have "Suc depth \<le> empties b" using d e2 em by simp
        ultimately show ?thesis by blast
      qed
    qed
  qed
qed

lemma computer_move_returns:
  assumes "invariant b" "empties b < depth"
  shows "\<exists>moved b'. computer_move depth b = Inr (moved, b') \<and> returns_control b moved b'"
  using computer_move_result [OF assms(1), of depth] assms(2) by auto

lemma play_loop_result:
  assumes "invariant b"
  shows "\<exists>b1. play_loop b sqs x y = Inr b1 \<and> invariant b1 \<and> board_n b1 = board_n b
      \<and> squares b1 = squares b \<and> ended b1 = ended b \<and> empties b1 \<le> empties b"
proof (induction sqs)
  case Nil
  have "play_loop b [] x y = Inr b" by simp
  then show ?case using assms by blast
next
  case (Cons sq sqs)
  show ?case
  proof (cases "was_clicked sq x y \<and> sq_location sq \<in> fst ` set (valid_moves b)")
    case False
    then have "play_loop b (sq # sqs) x y = play_loop b sqs x y" by auto
    with Cons.IH show ?thesis by simp
  next
    case True
    then have key: "sq_location sq \<in> fst ` set (valid_moves b)" by simp
    note lo = invariant_parts(1) [OF assms]
    note rng = legal_key [OF assms key]
    note idx = laid_out_index [OF lo rng(1,2)]
    from make_move_result [OF assms key] obtain b1 where
      all1: "make_move b (sq_location sq) = Inr b1 \<and> invariant b1
        \<and> vacancy b1 = (vacancy b)[nat (sq_location sq) := False]
        \<and> board_n b1 = board_n b \<and> squares b1 = squares b \<and> ended b1 = ended b
        \<and> turn b1 = (if turn b = White then Black else White)" ..
    have mm: "make_move b (sq_location sq) = Inr b1" and inv1: "invariant b1"
      and v1: "vacancy b1 = (vacancy b)[nat (sq_location sq) := False]"
      and n1: "board_n b1 = board_n b" and s1: "squares b1 = squares b"
      and e1: "ended b1 = ended b"
      using all1 by blast+
    have "Suc (empties b1) = empties b"
      by (rule empties_move [OF v1 idx(1) rng(3)])
    then have em: "empties b1 \<le> empties b" by simp
    have pl: "play_loop b (sq # sqs) x y = Inr b1"
      using True by (simp add: mm)
    show ?thesis
      by (intro exI [of _ b1] conjI pl inv1 n1 s1 e1 em)
  qed
qed

lemma play_result:
  assumes "invariant b"
  shows "(\<exists>b'. play depth b x y = Inr b' \<and> invariant b' \<and> board_n b' = board_n b
           \<and> squares b' = squares b
           \<and> (ended b' \<longrightarrow> ended b \<or> is_full b'
                 \<or> (valid_moves b' = [] \<and> find_valid_moves (switch_turns b') = Inr [])))
     \<or> (depth \<le> empties b \<and> (\<exists>s. play depth b x y = Inl (RecursionError, s)))"
proof -
  from play_loop_result [OF assms, of "squares b" x y] obtain b1 where
    all1: "play_loop b (squares b) x y = Inr b1 \<and> invariant b1 \<and> board_n b1 = board_n b
      \<and> squares b1 = squares b \<and> ended b1 = ended b \<and> empties b1 \<le> empties b" ..
  have pl: "play_loop b (squares b) x y = Inr b1" and inv1: "invariant b1"
    and n1: "board_n b1 = board_n b" and s1: "squares b1 = squares b"
    and e1: "ended b1 = ended b" and em1: "empties b1 \<le> empties b"
    using all1 by blast+
  have p: "play depth b x y =
      (let b2 = (if is_full b1 then (end_game b1)\<lparr>turn := Black\<rparr> else b1)
       in if turn b2 = White then
            and_then (computer_move depth b2) (\<lambda>(comp_moved, b3).
              if \<not> comp_moved \<and> length (valid_moves b3) = 0 then Inr (end_game b3)
              else Inr b3)
          else Inr b2)"
    by (simp add: play_def pl and_then_def)
  consider (full) "is_full b1" | (user) "\<not> is_full b1" "turn b1 \<noteq> White"
    | (computer) "\<not> is_full b1" "turn b1 = White" by blast
  then show ?thesis
  proof cases
    case full
    let ?b = "(end_game b1)\<lparr>turn := Black\<rparr>"
    have r: "play depth b x y = Inr ?b" using full by (simp add: p)
    have i: "invariant ?b" by (rule invariant_full_black [OF inv1 full])
    have f: "is_full ?b" using full by (simp add: is_full_def end_game_def)
    have "board_n ?b = board_n b" "squares ?b = squares b"
      by (simp_all add: end_game_def n1 s1)
    with r i f show ?thesis by blast
  next
    case user
    have r: "play depth b x y = Inr b1" using user by (simp add: p)
    with inv1 n1 s1 e1 show ?thesis by simp
  next
    case computer
    have p2: "play depth b x y =
        and_then (computer_move depth b1) (\<lambda>(comp_moved, b3).
          if \<not> comp_moved \<and> length (valid_moves b3) = 0 then Inr (end_game b3)
          else Inr b3)"
      using computer by (simp add: p)
    from computer_move_result [OF inv1, of depth] show ?thesis
    proof
      assume "\<exists>moved b'. computer_move depth b1 = Inr (moved, b') \<and> returns_control b1 moved b'"
      then obtain moved b3 where c: "computer_move depth b1 = Inr (moved, b3)"
        and rc: "returns_control b1 moved b3" by blast
      from rc have inv3: "invariant b3" and n3: "board_n b3 = board_n b1"
        and s3: "squares b3 = squares b1"
        and mv: "moved \<longrightarrow> is_full b3 \<or> valid_moves b3 \<noteq> []"
        and nm: "\<not> moved \<longrightarrow> find_valid_moves (switch_turns b3) = Inr []"
        and e3: "ended b3 \<longrightarrow> ended b1 \<or> is_full b3"
        unfolding returns_control_def by blast+
      show ?thesis
      proof (cases "\<not> moved \<and> valid_moves b3 = []")
        case True
        let ?b = "end_game b3"
        have r: "play depth b x y = Inr ?b"
          using True by (simp add: p2 c and_then_def)
        have i: "invariant ?b" by (rule invariant_end_game [OF inv3])
        have los: "laid_out (switch_turns b3)"
          using invariant_parts(1) [OF inv3] laid_out_frame [of "switch_turns b3" b3]
          by (simp add: switch_turns_fields)
        have loe: "laid_out (switch_turns ?b)"
          using invariant_parts(1) [OF inv3] laid_out_frame [of "switch_turns ?b" b3]
          by (simp add: switch_turns_fields end_game_def)
        have "spec_legal_moves (switch_turns ?b) = spec_legal_moves (switch_turns b3)"
          by (rule spec_legal_moves_frame)
             (simp_all add: switch_turns_fields switch_turns_turn end_game_def)
        with find_valid_moves_spec [OF loe] find_valid_moves_spec [OF los]
        have "find_valid_moves (switch_turns ?b) = find_valid_moves (switch_turns b3)"
          by simp
        then have "find_valid_moves (switch_turns ?b) = Inr []"
          using nm True by simp
        moreover have "valid_moves ?b = []" using True by (simp add: end_game_def)
        moreover have "board_n ?b = board_n b" "squares ?b = squares b"
          by (simp_all add: end_game_def n1 s1 n3 s3)
        ultimately show ?thesis using r i by blast
      next
        case False
        have r: "play depth b x y = Inr b3"
          using False by (auto simp add: p2 c and_then_def)
        have "board_n b3 = board_n b" "squares b3 = squares b"
          by (simp_all add: n1 s1 n3 s3)
        moreover have "ended b3 \<longrightarrow> ended b \<or> is_full b3" using e3 e1 by simp
        ultimately show ?thesis using r inv3 by blast
      qed
    next
      assume "depth \<le> empties b1 \<and> (\<exists>s. computer_move depth b1 = Inl (RecursionError, s))"
      then have d: "depth \<le> empties b1"
        and "\<exists>s. computer_move depth b1 = Inl (RecursionError, s)" by blast+
      then obtain s where "computer_move depth b1 = Inl (RecursionError, s)" by blast
      then have "play depth b x y = Inl (RecursionError, s)"
        by (simp add: p2 and_then_def)
      moreover have "depth \<le> empties b" using d em1 by simp
      ultimately show ?thesis by blast
    qed
  qed
qed

lemma reachable_invariant: "reachable b \<Longrightarrow> invariant b"
proof (induction rule: reachable.induct)
  case (start n b)
  then show ?case by (rule new_GameBoard_invariant(1))
next
  case (move b location b')
  from make_move_result [OF move.IH move.hyps(2)] move.hyps(3) show ?case by auto
next
  case (pass b b')
  show ?case
    by (rule next_turn_frame(1) [OF invariant_parts(1,2) [OF pass.IH] pass.hyps(2)])
next
  case (click b depth x y b')
  from play_result [OF click.IH, of depth x y] click.hyps(2) show ?case by auto
qed

subsection \<open>The initial 8 by 8 board\<close>

lemma squares8:
  "init_rows 8 8 0 (- 200) (- 200) =
     map (\<lambda>i. \<lparr>sq_location = i, sq_x = - 200 + 50 * (i mod 8), sq_y = - 200 + 50 * (i div 8),
                sq_size = 50\<rparr>)
       ([0, 1, 2, 3, 4, 5, 6, 7]
        @ [8, 9, 10, 11, 12, 13, 14, 15]
        @ [16, 17, 18, 19, 20, 21, 22, 23]
        @ [24, 25, 26, 27, 28, 29, 30, 31]
        @ [32, 33, 34, 35, 36, 37, 38, 39]
        @ [40, 41, 42, 43, 44, 45, 46, 47]
        @ [48, 49, 50, 51, 52, 53, 54, 55]
        @ [56, 57, 58, 59, 60, 61, 62, 63])"
  by (simp add: eval_nat_numeral SQUARE_def)

lemma pieces8_list:
  "pieces8 =
     [None, None, None, None, None, None, None, None,
      None, None, None, None, None, None, None, None,
      None, None, None, None, None, None, None, None,
      None, None, None, Some \<lparr>p_location = 27, p_color = White, p_x = - 25, p_y = - 25\<rparr>,
      Some \<lparr>p_location = 28, p_color = Black, p_x = 25, p_y = - 25\<rparr>, None, None, None,
      None, None, None, Some \<lparr>p_location = 35, p_color = Black, p_x = - 25, p_y = 25\<rparr>,
      Some \<lparr>p_location = 36, p_color = White, p_x = 25, p_y = 25\<rparr>, None, None, None,
      None, None, None, None, None, None, None, None,
      None, None, None, None, None, None, None, None,
      None, None, None, None, None, None, None, None]"
  by (simp add: pieces8_def eval_nat_numeral)

lemma draw_start_tiles_8:
  "draw_start_tiles \<lparr>board_n = 8, turn = Black, pieces = replicate 64 None,
      black = 0, white = 0, squares = init_rows 8 8 0 (- 200) (- 200),
      valid_moves = [], ended = False\<rparr> = Inr board8"
  by (simp add: draw_start_tiles_def find_center_squares_def Let_def place_def
      and_then_def raised_in_def py_index_def py_store_def squares8 calc_center_def
      switch_turns_def board8_def pieces8_list eval_nat_numeral SQUARE_def)


lemma board8_fields:
  "board_n board8 = 8" "turn board8 = Black" "pieces board8 = pieces8"
  "squares board8 = init_rows 8 8 0 (- 200) (- 200)"
  by (simp_all add: board8_def)

lemma find_valid_moves_board8: "find_valid_moves board8 = Inr (valid_moves start8)"
  by (simp cong: and_then_weak_cong
      add: board8_fields squares8 pieces8_list eval_moves start8_def)

lemma new_GameBoard_8: "new_GameBoard 8 = Inr start8"
proof -
  have sq: "init_squares \<lparr>board_n = 8, turn = Black, pieces = replicate 64 None,
                black = 0, white = 0, squares = [], valid_moves = [], ended = False\<rparr>
              (- (8 * SQUARE) div 2) = init_rows 8 8 0 (- 200) (- 200)"
    by (simp add: init_squares_def SQUARE_def)
  show ?thesis
    by (simp add: new_GameBoard_def Let_def sq draw_start_tiles_8 and_then_def raised_in_def
        find_valid_moves_board8 start8_def)
qed

text \<open>
  Claim C7. The constructor with \<open>n = 8\<close> returns a board whose centre squares are 35,
  36, 28 and 27 (the upper right one is \<open>(n * n + n) div 2 = 36\<close>, the others are 1, \<open>n\<close>
  and \<open>n + 1\<close> below it). These four squares are the only occupied ones; 35 and 28, which
  are diagonal neighbours, hold black tiles, 36 and 27 hold white tiles, and both counters
  are 2. It is black's turn, the game is not over, and the legal-move table has the four
  keys 19, 26, 37 and 44, each with exactly one tile to capture.
\<close>

theorem initial_board_8:
  "new_GameBoard 8 = Inr start8
   \<and> find_center_squares start8 = [35, 36, 28, 27]
   \<and> ((board_n start8)\<^sup>2 + board_n start8) div 2 = 36
   \<and> filter (\<lambda>i. pieces start8 ! i \<noteq> None) [0..<length (pieces start8)] = [27, 28, 35, 36]
   \<and> length (pieces start8) = 64
   \<and> map (\<lambda>i. map_option p_color (pieces start8 ! i)) [35, 28, 36, 27]
       = [Some Black, Some Black, Some White, Some White]
   \<and> (35 div 8 = 28 div 8 + (1::int) \<and> 35 mod 8 = 28 mod 8 - (1::int))
   \<and> (36 div 8 = 27 div 8 + (1::int) \<and> 36 mod 8 = 27 mod 8 + (1::int))
   \<and> black start8 = 2 \<and> white start8 = 2
   \<and> turn start8 = Black \<and> \<not> ended start8
   \<and> map fst (valid_moves start8) = [19, 26, 37, 44]
   \<and> map (\<lambda>kv. length (snd kv)) (valid_moves start8) = [1, 1, 1, 1]"
proof -
  have occ: "filter (\<lambda>i. pieces start8 ! i \<noteq> None) [0..<length (pieces start8)]
      = [27, 28, 35, 36]"
    by (simp add: start8_def board8_def pieces8_list upt_rec)
  have rest: "find_center_squares start8 = [35, 36, 28, 27]"
    "((board_n start8)\<^sup>2 + board_n start8) div 2 = 36"
    "length (pieces start8) = 64"
    "map (\<lambda>i. map_option p_color (pieces start8 ! i)) [35, 28, 36, 27]
       = [Some Black, Some Black, Some White, Some White]"
    "black start8 = 2 \<and> white start8 = 2" "turn start8 = Black \<and> \<not> ended start8"
    "map fst (valid_moves start8) = [19, 26, 37, 44]"
    "map (\<lambda>kv. length (snd kv)) (valid_moves start8) = [1, 1, 1, 1]"
    by (simp_all add: start8_def board8_def pieces8_list find_center_squares_def)
  have ar: "35 div 8 = 28 div 8 + (1::int) \<and> 35 mod 8 = 28 mod 8 - (1::int)"
    "36 div 8 = 27 div 8 + (1::int) \<and> 36 mod 8 = 27 mod 8 + (1::int)"
    by simp_all
  show ?thesis
    by (intro conjI new_GameBoard_8 occ rest ar
        conjunct1 [OF rest(5)] conjunct2 [OF rest(5)] conjunct1 [OF rest(6)]
        conjunct2 [OF rest(6)] conjunct1 [OF ar(1)] conjunct2 [OF ar(1)]
        conjunct1 [OF ar(2)] conjunct2 [OF ar(2)])
qed

end
